theory Spec2Isabelle
  imports Main "HOL-Library.Word"
begin

section \<open>JavaScript strings and Node buffers\<close>

text \<open>
  The proxy (lsp-server-proxy.js) receives \<open>Buffer\<close>s of bytes from the language
  server's stdout and turns each of them into a JavaScript string with
  \<open>data.toString()\<close>. A JavaScript string is a sequence of 16-bit UTF-16 code units:
  \<open>buffer.length\<close>, \<open>indexOf\<close> and \<open>substring\<close> all count code units. Bytes are
  8-bit words, code units are 16-bit words.

  JavaScript numbers are doubles, exact on integers up to \<open>2 ^ 53\<close>. Lengths and
  indices of strings, and the request counter of a session, stay far below that, so
  they are natural numbers here. A declared Content-Length may be any run of digits:
  from \<open>2 ^ 53\<close> on \<open>parseInt\<close> rounds it, to a number that is still \<open>2 ^ 53\<close> or more,
  which no buffer reaches, so the loop waits for more data, as it does with the exact
  number here.
\<close>

type_synonym byte = "8 word"
type_synonym unit16 = "16 word"
type_synonym jsstring = "unit16 list"

text \<open>An ASCII literal of the source as a JavaScript string.\<close>

definition js :: "string \<Rightarrow> jsstring" where
  "js s = map of_char s"

subsection \<open>UTF-8 encoding of a string: \<open>Buffer.byteLength(s, "utf8")\<close>, \<open>stdin.write(s)\<close>\<close>

definition is_high_surrogate :: "unit16 \<Rightarrow> bool" where
  "is_high_surrogate u = (0xD800 \<le> u \<and> u \<le> 0xDBFF)"

definition is_low_surrogate :: "unit16 \<Rightarrow> bool" where
  "is_low_surrogate u = (0xDC00 \<le> u \<and> u \<le> 0xDFFF)"

definition scalar_of_unit :: "unit16 \<Rightarrow> nat" where
  \<comment> \<open>a code unit on its own; an unpaired surrogate is written as U+FFFD\<close>
  "scalar_of_unit u =
     (if is_high_surrogate u \<or> is_low_surrogate u then 0xFFFD else unat u)"

fun code_points :: "jsstring \<Rightarrow> nat list" where
  "code_points [] = []"
| "code_points [u] = [scalar_of_unit u]"
| "code_points (u # v # us) =
     (if is_high_surrogate u \<and> is_low_surrogate v
      then (0x10000 + (unat u - 0xD800) * 1024 + (unat v - 0xDC00)) # code_points us
      else scalar_of_unit u # code_points (v # us))"

definition utf8_of_code_point :: "nat \<Rightarrow> byte list" where
  "utf8_of_code_point cp =
     (if cp < 0x80 then [of_nat cp]
      else if cp < 0x800 then [of_nat (0xC0 + cp div 64), of_nat (0x80 + cp mod 64)]
      else if cp < 0x10000 then
        [of_nat (0xE0 + cp div 4096), of_nat (0x80 + cp div 64 mod 64),
         of_nat (0x80 + cp mod 64)]
      else
        [of_nat (0xF0 + cp div 262144), of_nat (0x80 + cp div 4096 mod 64),
         of_nat (0x80 + cp div 64 mod 64), of_nat (0x80 + cp mod 64)])"

definition utf8_encode :: "jsstring \<Rightarrow> byte list" where
  "utf8_encode s = concat (map utf8_of_code_point (code_points s))"

definition byteLength :: "jsstring \<Rightarrow> nat" where
  "byteLength s = length (utf8_encode s)"

subsection \<open>UTF-8 decoding of a buffer: \<open>data.toString()\<close>\<close>

text \<open>
  The decoder of the Encoding standard, which Node follows: a byte that cannot start or
  continue a sequence ends the sequence read so far, which becomes one U+FFFD; a
  sequence cut off by the end of the buffer becomes one U+FFFD as well. The state is
  (bytes needed, code point so far, lower bound, upper bound of the next byte).
\<close>

type_synonym utf8_state = "nat \<times> nat \<times> nat \<times> nat"

definition utf8_idle :: utf8_state where
  "utf8_idle = (0, 0, 0x80, 0xBF)"

definition utf8_lead :: "nat \<Rightarrow> nat list \<times> utf8_state" where
  "utf8_lead b =
     (if b \<le> 0x7F then ([b], utf8_idle)
      else if 0xC2 \<le> b \<and> b \<le> 0xDF then ([], (1, b mod 32, 0x80, 0xBF))
      else if 0xE0 \<le> b \<and> b \<le> 0xEF then
        ([], (2, b mod 16, if b = 0xE0 then 0xA0 else 0x80, if b = 0xED then 0x9F else 0xBF))
      else if 0xF0 \<le> b \<and> b \<le> 0xF4 then
        ([], (3, b mod 8, if b = 0xF0 then 0x90 else 0x80, if b = 0xF4 then 0x8F else 0xBF))
      else ([0xFFFD], utf8_idle))"

fun utf8_run :: "utf8_state \<Rightarrow> nat list \<Rightarrow> nat list" where
  "utf8_run (needed, cp, lo, hi) [] = (if needed = 0 then [] else [0xFFFD])"
| "utf8_run (needed, cp, lo, hi) (b # bs) =
     (if needed = 0 then
        (case utf8_lead b of (out, st) \<Rightarrow> out @ utf8_run st bs)
      else if b < lo \<or> hi < b then
        0xFFFD # (case utf8_lead b of (out, st) \<Rightarrow> out @ utf8_run st bs)
      else if needed = 1 then (cp * 64 + b mod 64) # utf8_run utf8_idle bs
      else utf8_run (needed - 1, cp * 64 + b mod 64, 0x80, 0xBF) bs)"

definition units_of_code_point :: "nat \<Rightarrow> jsstring" where
  "units_of_code_point cp =
     (if cp < 0x10000 then [of_nat cp]
      else [of_nat (0xD800 + (cp - 0x10000) div 1024),
            of_nat (0xDC00 + (cp - 0x10000) mod 1024)])"

definition utf8_decode :: "byte list \<Rightarrow> jsstring" where
  "utf8_decode bs = concat (map units_of_code_point (utf8_run utf8_idle (map unat bs)))"

section \<open>String operations used by the proxy\<close>

text \<open>\<open>text.indexOf(pat)\<close>: the first index where \<open>pat\<close> occurs, \<open>None\<close> for -1.\<close>

fun indexOf :: "jsstring \<Rightarrow> jsstring \<Rightarrow> nat option" where
  "indexOf [] pat = (if pat = [] then Some 0 else None)"
| "indexOf (c # cs) pat =
     (if take (length pat) (c # cs) = pat then Some 0
      else map_option Suc (indexOf cs pat))"

text \<open>
  \<open>s.substring(a, b)\<close>: both indices are clamped to the length and swapped when
  \<open>a > b\<close>; \<open>s.substring(a)\<close> runs to the end.
\<close>

definition substring :: "jsstring \<Rightarrow> nat \<Rightarrow> nat \<Rightarrow> jsstring" where
  "substring s a b =
     (let a' = min a (length s); b' = min b (length s)
      in take (max a' b' - min a' b') (drop (min a' b') s))"

definition substring_from :: "jsstring \<Rightarrow> nat \<Rightarrow> jsstring" where
  "substring_from s a = drop a s"

text \<open>The class \<open>\d\<close> of a regular expression without the unicode flag: 0 to 9.\<close>

definition is_digit :: "unit16 \<Rightarrow> bool" where
  "is_digit c = (0x30 \<le> c \<and> c \<le> 0x39)"

definition content_length_literal :: jsstring where
  "content_length_literal = js ''Content-Length: ''"

text \<open>
  \<open>headers.match(/Content-Length: (\d+)/)\<close>: the leftmost position where the literal
  is followed by at least one digit; the group is the longest run of digits there.
  The result is the text of group 1, \<open>None\<close> when there is no match.
\<close>

fun content_length_match :: "jsstring \<Rightarrow> jsstring option" where
  "content_length_match [] = None"
| "content_length_match (c # cs) =
     (if take 16 (c # cs) = content_length_literal
         \<and> takeWhile is_digit (drop 16 (c # cs)) \<noteq> []
      then Some (takeWhile is_digit (drop 16 (c # cs)))
      else content_length_match cs)"

text \<open>\<open>parseInt\<close> on a run of decimal digits.\<close>

definition digit_value :: "unit16 \<Rightarrow> nat" where
  "digit_value c = unat c - 0x30"

definition parseInt :: "jsstring \<Rightarrow> nat" where
  "parseInt ds = foldl (\<lambda>acc c. acc * 10 + digit_value c) 0 ds"

text \<open>A number in a template literal: its decimal digits, without leading zeros.\<close>

definition digit_char :: "nat \<Rightarrow> unit16" where
  "digit_char d = of_nat (0x30 + d)"

fun decimal :: "nat \<Rightarrow> jsstring" where
  "decimal n = (if n < 10 then [digit_char n] else decimal (n div 10) @ [digit_char (n mod 10)])"

declare decimal.simps [simp del]

definition CRLFCRLF :: jsstring where
  "CRLFCRLF = js [CHR 0x0D, CHR 0x0A, CHR 0x0D, CHR 0x0A]"

section \<open>The proxy: framing towards the server, decoding from the server\<close>

text \<open>
  \<open>ws.on("message")\<close>: \<open>messageStr = message.toString()\<close> is the text of the client's
  message. It gets the header \<open>Content-Length: N\<close>, where
  \<open>N = Buffer.byteLength(messageStr, "utf8")\<close>, and \<open>ls.stdin.write\<close> writes the whole
  string to the server's stdin, as UTF-8.
\<close>

definition lspMessage :: "jsstring \<Rightarrow> jsstring" where
  "lspMessage messageStr =
     (let contentLength = byteLength messageStr
      in js ''Content-Length: '' @ decimal contentLength @ CRLFCRLF @ messageStr)"

definition stdin_write :: "jsstring \<Rightarrow> byte list" where
  "stdin_write messageStr = utf8_encode (lspMessage messageStr)"

text \<open>
  The loop of \<open>ls.stdout.on("data")\<close>. \<open>JSON_parse_ok\<close> says whether \<open>JSON.parse\<close>
  returns on a text (it throws otherwise), \<open>ws_open\<close> whether \<open>ws.readyState === 1\<close>.
  The result is the list of texts passed to \<open>ws.send\<close>, in order, and the buffer left.
\<close>

lemma indexOf_le: "indexOf s pat = Some i \<Longrightarrow> i + length pat \<le> length s"
proof (induction s arbitrary: i)
  case Nil
  then show ?case by (simp split: if_splits)
next
  case (Cons c cs)
  show ?case
  proof (cases "take (length pat) (c # cs) = pat")
    case True
    then have "length (take (length pat) (c # cs)) = length pat"
      by simp
    then have "length pat \<le> length (c # cs)"
      by (simp only: length_take)
    with True Cons.prems show ?thesis by simp
  next
    case False
    with Cons.prems obtain j where "indexOf cs pat = Some j" "i = Suc j"
      by auto
    with Cons.IH show ?thesis by simp
  qed
qed

function drain :: "(jsstring \<Rightarrow> bool) \<Rightarrow> bool \<Rightarrow> jsstring \<Rightarrow> jsstring list \<times> jsstring" where
  "drain JSON_parse_ok ws_open buffer =
     (case indexOf buffer CRLFCRLF of
        None \<Rightarrow> ([], buffer)
      | Some headerEnd \<Rightarrow>
          (let headers = substring buffer 0 headerEnd in
           case content_length_match headers of
             None \<Rightarrow> drain JSON_parse_ok ws_open (substring_from buffer (headerEnd + 4))
           | Some digits \<Rightarrow>
               (let contentLength = parseInt digits;
                    messageStart = headerEnd + 4;
                    messageEnd = messageStart + contentLength
                in if length buffer < messageEnd then ([], buffer)
                   else
                     (let messageContent = substring buffer messageStart messageEnd;
                          sent = (if JSON_parse_ok messageContent \<and> ws_open
                                  then [messageContent] else [])
                      in case drain JSON_parse_ok ws_open (substring_from buffer messageEnd) of
                           (out, rest) \<Rightarrow> (sent @ out, rest)))))"
  by pat_completeness auto
termination
proof (relation "measure (\<lambda>(p, w, buffer). length buffer)", goal_cases)
  case 1
  show ?case by simp
next
  case (2 JSON_parse_ok ws_open buffer headerEnd headers)
  from indexOf_le [OF 2(1)] show ?case
    by (simp add: substring_from_def CRLFCRLF_def js_def)
next
  case (3 JSON_parse_ok ws_open buffer headerEnd headers digits contentLength messageStart
      messageEnd messageContent sent)
  from indexOf_le [OF 3(1)] 3 show ?case
    by (simp add: substring_from_def CRLFCRLF_def js_def)
qed

declare drain.simps [simp del]

text \<open>\<open>ls.stdout.on("data")\<close>: the chunk is decoded and appended, then the loop runs.\<close>

definition on_data ::
  "(jsstring \<Rightarrow> bool) \<Rightarrow> bool \<Rightarrow> jsstring \<Rightarrow> byte list \<Rightarrow> jsstring list \<times> jsstring" where
  "on_data JSON_parse_ok ws_open buffer data =
     drain JSON_parse_ok ws_open (buffer @ utf8_decode data)"

text \<open>Several \<open>data\<close> events in a row, starting from the given buffer.\<close>

fun on_data_all ::
  "(jsstring \<Rightarrow> bool) \<Rightarrow> bool \<Rightarrow> jsstring \<Rightarrow> byte list list \<Rightarrow> jsstring list \<times> jsstring" where
  "on_data_all JSON_parse_ok ws_open buffer [] = ([], buffer)"
| "on_data_all JSON_parse_ok ws_open buffer (data # more) =
     (case on_data JSON_parse_ok ws_open buffer data of
        (out, buffer') \<Rightarrow>
          (case on_data_all JSON_parse_ok ws_open buffer' more of
             (out', buffer'') \<Rightarrow> (out @ out', buffer'')))"

text \<open>Texts and buffers in which every character is one byte and one code unit.\<close>

definition ascii :: "jsstring \<Rightarrow> bool" where
  "ascii s = (\<forall>u \<in> set s. u < 0x80)"

definition ascii_bytes :: "byte list \<Rightarrow> bool" where
  "ascii_bytes bs = (\<forall>b \<in> set bs. b < 0x80)"

section \<open>The client: \<open>SimpleLSPClient\<close> (lsp-client.ts)\<close>

text \<open>
  The client is an object with mutable fields, driven by method calls and by the
  callbacks of its WebSockets, of its timers and of its promises. Every method and
  callback is a function from the state before to the state after. The state holds the
  fields of the object and, below them, the part of the environment the callbacks
  act on: the WebSockets the client has created, each with its \<open>readyState\<close>, the
  timeouts that are scheduled, the promises \<open>sendRequest\<close> returned and every call of
  their \<open>resolve\<close> and \<open>reject\<close>, and what was passed to \<open>ws.send\<close> and to the two
  handlers. The request counter is a natural number (see the first section).
\<close>

text \<open>A JavaScript number. Nothing is computed with one here.\<close>

typedecl js_number

datatype json =
  JNull | JBool bool | JNum js_number | JStr jsstring | JArr "json list"
| JObj "(jsstring \<times> json) list"

datatype readyState = CONNECTING | OPEN | CLOSING | CLOSED

datatype status = Connecting | Connected | Disconnected | Errored

text \<open>What \<open>JSON.stringify(message)\<close> serialises: a request carries an id, a notification none.\<close>

datatype outgoing =
  Request nat jsstring "json option"
| Notification jsstring "json option"

datatype diag_code = CodeNumber js_number | CodeString jsstring

record diagnostic =
  range_start_line :: nat
  range_start_character :: nat
  range_end_line :: nat
  range_end_character :: nat
  diag_severity :: "nat option"
  diag_message :: jsstring
  diag_code :: "diag_code option"

record publish_params =
  params_uri :: jsstring
  params_diagnostics :: "diagnostic list"

record response_error =
  error_message :: jsstring

text \<open>
  A parsed incoming message (\<open>any\<close> in the source), with the fields \<open>handleMessage\<close>
  reads; \<open>None\<close> is \<open>undefined\<close>. An id that is not a number is never a key of the
  pending map and behaves like a number that is not pending.
\<close>

record lsp_message =
  msg_id :: "nat option"
  msg_method :: "jsstring option"
  msg_params :: "publish_params option"
  msg_result :: "json option"
  msg_error :: "response_error option"

text \<open>How a promise returned by \<open>sendRequest\<close> ended; a rejection carries the \<open>Error\<close>'s message.\<close>

datatype outcome = Resolved "json option" | Rejected jsstring

text \<open>
  The pair \<open>{resolve, reject}\<close> stored in the pending map by the call that allocated the
  given id: both clear that call's timeout, then settle that call's promise. Timeouts
  and promises are numbered by the id of the call that created them.
\<close>

datatype callbacks = Callbacks nat

text \<open>
  The field \<open>ws\<close> is a reference: the number of the socket it points to, \<open>None\<close> when it
  is \<open>null\<close>. The sockets themselves are in \<open>sockets\<close>, numbered in the order
  \<open>new WebSocket(url)\<close> created them, each with its \<open>readyState\<close>; \<open>socketCount\<close> is the
  number created so far. A socket the field no longer points to is still there, and its
  callbacks still act on this client.
\<close>

record client =
  ws :: "nat option"
  messageId :: nat
  pendingRequests :: "nat \<rightharpoonup> callbacks"
  isInitialized :: bool
  diagnosticsHandler :: bool
  connectionStatusHandler :: bool
  sockets :: "nat \<rightharpoonup> readyState"
  socketCount :: nat
  timers :: "nat \<rightharpoonup> jsstring"
  promises :: "nat \<rightharpoonup> outcome"
  settled :: "(nat \<times> outcome) list"
  sent :: "outgoing list"
  diagnosticsCalls :: "(jsstring \<times> diagnostic list) list"
  statusCalls :: "status list"

definition new_client :: client where
  "new_client =
     \<lparr>ws = None, messageId = 0, pendingRequests = Map.empty, isInitialized = False,
      diagnosticsHandler = False, connectionStatusHandler = False,
      sockets = Map.empty, socketCount = 0,
      timers = Map.empty, promises = Map.empty, settled = [], sent = [],
      diagnosticsCalls = [], statusCalls = []\<rparr>"

text \<open>\<open>this.ws.readyState\<close>, when \<open>this.ws\<close> is not \<open>null\<close>.\<close>

definition ws_readyState :: "client \<Rightarrow> readyState option" where
  "ws_readyState c = (case ws c of None \<Rightarrow> None | Some k \<Rightarrow> sockets c k)"

text \<open>
  A call of a promise's \<open>resolve\<close> or \<open>reject\<close>: the call is recorded; it decides the
  promise only when the promise has not been decided before.
\<close>

definition settle :: "nat \<Rightarrow> outcome \<Rightarrow> client \<Rightarrow> client" where
  "settle p out c =
     c\<lparr>promises := (if promises c p = None then (promises c)(p \<mapsto> out) else promises c),
       settled := settled c @ [(p, out)]\<rparr>"

definition clearTimeout :: "nat \<Rightarrow> client \<Rightarrow> client" where
  "clearTimeout t c = c\<lparr>timers := (timers c)(t := None)\<rparr>"

definition callbacks_resolve :: "callbacks \<Rightarrow> json option \<Rightarrow> client \<Rightarrow> client" where
  "callbacks_resolve cb result c =
     (case cb of Callbacks p \<Rightarrow> settle p (Resolved result) (clearTimeout p c))"

definition callbacks_reject :: "callbacks \<Rightarrow> jsstring \<Rightarrow> client \<Rightarrow> client" where
  "callbacks_reject cb err c =
     (case cb of Callbacks p \<Rightarrow> settle p (Rejected err) (clearTimeout p c))"

definition notify_status :: "status \<Rightarrow> client \<Rightarrow> client" where
  "notify_status s c =
     (if connectionStatusHandler c then c\<lparr>statusCalls := statusCalls c @ [s]\<rparr> else c)"

text \<open>
  \<open>connect(url)\<close> creates a socket, in state \<open>CONNECTING\<close>, points \<open>this.ws\<close> to it and
  installs the four callbacks on it. The callbacks act on the client, not on the socket
  they are installed on: \<open>onopen\<close> and \<open>onerror\<close> report the status (and decide the promise
  \<open>connect\<close> returned, which is not modelled), \<open>onclose\<close> resets \<open>isInitialized\<close> and reports
  the status, and \<open>onmessage\<close> is \<open>handleMessage\<close> below, on the parsed message.
\<close>

definition connect :: "client \<Rightarrow> client" where
  "connect c =
     (let k = socketCount c
      in c\<lparr>ws := Some k, sockets := (sockets c)(k \<mapsto> CONNECTING), socketCount := k + 1\<rparr>)"

definition ws_onopen :: "client \<Rightarrow> client" where
  "ws_onopen c = notify_status Connected c"

definition ws_onerror :: "client \<Rightarrow> client" where
  "ws_onerror c = notify_status Errored c"

definition ws_onclose :: "client \<Rightarrow> client" where
  "ws_onclose c = notify_status Disconnected (c\<lparr>isInitialized := False\<rparr>)"

definition setDiagnosticsHandler :: "client \<Rightarrow> client" where
  "setDiagnosticsHandler c = c\<lparr>diagnosticsHandler := True\<rparr>"

definition setConnectionStatusHandler :: "client \<Rightarrow> client" where
  "setConnectionStatusHandler c = c\<lparr>connectionStatusHandler := True\<rparr>"

definition publishDiagnostics :: jsstring where
  "publishDiagnostics = js ''textDocument/publishDiagnostics''"

text \<open>
  \<open>handleMessage\<close>, called by \<open>ws.onmessage\<close> on the parsed message. Destructuring
  \<open>message.params\<close> throws when there are no params; \<open>onmessage\<close> catches and logs it.
\<close>

definition handleMessage :: "lsp_message \<Rightarrow> client \<Rightarrow> client" where
  "handleMessage message c =
     (if msg_id message \<noteq> None \<and> pendingRequests c (the (msg_id message)) \<noteq> None then
        (let cb = the (pendingRequests c (the (msg_id message)));
             c' = c\<lparr>pendingRequests := (pendingRequests c)(the (msg_id message) := None)\<rparr>
         in if msg_error message \<noteq> None
            then callbacks_reject cb (error_message (the (msg_error message))) c'
            else callbacks_resolve cb (msg_result message) c')
      else if msg_method message = Some publishDiagnostics then
        (case msg_params message of
           None \<Rightarrow> c
         | Some p \<Rightarrow>
             if diagnosticsHandler c
             then c\<lparr>diagnosticsCalls :=
                      diagnosticsCalls c @ [(params_uri p, params_diagnostics p)]\<rparr>
             else c)
      else c)"

definition timeout_message :: "jsstring \<Rightarrow> nat \<Rightarrow> jsstring" where
  "timeout_message method i =
     js ''Request '' @ method @ js '' (id: '' @ decimal i @ js '') timed out after 30 seconds''"

text \<open>
  \<open>sendRequest\<close>. The result is the promise: \<open>Inl\<close> the message of the error it is
  rejected with at once, \<open>Inr\<close> the id whose pending promise it is.
\<close>

definition sendRequest :: "jsstring \<Rightarrow> json option \<Rightarrow> client \<Rightarrow> (jsstring + nat) \<times> client" where
  "sendRequest method params c =
     (if ws c = None \<or> ws_readyState c \<noteq> Some OPEN
      then (Inl (js ''WebSocket not connected''), c)
      else
        (let i = messageId c + 1;
             c1 = c\<lparr>messageId := i\<rparr>;
             c2 = c1\<lparr>timers := (timers c1)(i \<mapsto> method)\<rparr>;
             c3 = c2\<lparr>pendingRequests := (pendingRequests c2)(i \<mapsto> Callbacks i)\<rparr>;
             c4 = c3\<lparr>sent := sent c3 @ [Request i method params]\<rparr>
         in (Inr i, c4)))"

text \<open>
  The callback given to \<open>setTimeout(..., 30000)\<close> by the call that allocated \<open>i\<close>, and
  the timer that runs it: a timeout that was cleared, or that has fired, does nothing.
  Time is not modelled: a scheduled timeout may fire at any moment, and the delay of
  30000 ms appears only in the text of the error.
\<close>

definition on_timeout :: "nat \<Rightarrow> jsstring \<Rightarrow> client \<Rightarrow> client" where
  "on_timeout i method c =
     (if pendingRequests c i \<noteq> None
      then settle i (Rejected (timeout_message method i))
             (c\<lparr>pendingRequests := (pendingRequests c)(i := None)\<rparr>)
      else c)"

definition fire_timeout :: "nat \<Rightarrow> client \<Rightarrow> client" where
  "fire_timeout t c =
     (case timers c t of
        None \<Rightarrow> c
      | Some method \<Rightarrow> on_timeout t method (c\<lparr>timers := (timers c)(t := None)\<rparr>))"

definition sendNotification :: "jsstring \<Rightarrow> json option \<Rightarrow> client \<Rightarrow> client" where
  "sendNotification method params c =
     (if ws c = None \<or> ws_readyState c \<noteq> Some OPEN then c
      else c\<lparr>sent := sent c @ [Notification method params]\<rparr>)"

definition initialize_params :: json where
  "initialize_params =
     JObj [(js ''processId'', JNull),
           (js ''clientInfo'',
              JObj [(js ''name'', JStr (js ''Monaco SysML Editor'')),
                    (js ''version'', JStr (js ''1.0.0''))]),
           (js ''capabilities'',
              JObj [(js ''textDocument'',
                JObj [(js ''synchronization'',
                         JObj [(js ''dynamicRegistration'', JBool False),
                               (js ''willSave'', JBool False),
                               (js ''willSaveWaitUntil'', JBool False),
                               (js ''didSave'', JBool False)]),
                      (js ''completion'', JObj [(js ''dynamicRegistration'', JBool False)]),
                      (js ''hover'', JObj [(js ''dynamicRegistration'', JBool False)])])]),
           (js ''rootUri'', JNull),
           (js ''workspaceFolders'', JNull)]"

text \<open>
  \<open>initialize()\<close> is asynchronous: it runs up to its \<open>await\<close>, and its second half runs
  when the awaited promise is decided. \<open>Returned\<close> is the value the call's own promise
  resolves with, \<open>Threw\<close> the error it rejects with, \<open>Awaiting\<close> the id it waits for.
\<close>

datatype initialize_result = Returned "json option" | Threw jsstring | Awaiting nat

definition initialize :: "client \<Rightarrow> initialize_result \<times> client" where
  "initialize c =
     (if isInitialized c then (Returned None, c)
      else
        (case sendRequest (js ''initialize'') (Some initialize_params) c of
           (Inl err, c') \<Rightarrow> (Threw err, c')
         | (Inr i, c') \<Rightarrow> (Awaiting i, c')))"

definition initialize_resume :: "outcome \<Rightarrow> client \<Rightarrow> initialize_result \<times> client" where
  "initialize_resume out c =
     (case out of
        Rejected err \<Rightarrow> (Threw err, c)
      | Resolved result \<Rightarrow>
          (let c1 = sendNotification (js ''initialized'') (Some (JObj [])) c;
               c2 = c1\<lparr>isInitialized := True\<rparr>
           in (Returned result, c2)))"

text \<open>
  \<open>WebSocket.close()\<close> on socket \<open>k\<close>: a socket that is connecting or open starts
  closing; its \<open>close\<close> event comes later. \<open>disconnect()\<close> closes the socket \<open>this.ws\<close>
  points to and drops the reference, empties the pending map and resets \<open>isInitialized\<close>.
\<close>

definition ws_close :: "nat \<Rightarrow> client \<Rightarrow> client" where
  "ws_close k c =
     (if sockets c k = Some CONNECTING \<or> sockets c k = Some OPEN
      then c\<lparr>sockets := (sockets c)(k \<mapsto> CLOSING)\<rparr>
      else c)"

definition disconnect :: "client \<Rightarrow> client" where
  "disconnect c =
     (let c1 = (case ws c of None \<Rightarrow> c | Some k \<Rightarrow> (ws_close k c)\<lparr>ws := None\<rparr>)
      in c1\<lparr>pendingRequests := Map.empty, isInitialized := False\<rparr>)"

text \<open>
  The events of a socket are those of the browser. Socket \<open>k\<close> opens when it is
  connecting, and then its \<open>onopen\<close> runs; it closes, once, when it exists and is not
  closed yet, and then its \<open>onclose\<close> runs. Its \<open>onerror\<close> runs when the connection
  fails, before the \<open>close\<close> event; the callback does not read the socket, and here it may
  run at any moment for a socket that exists.
\<close>

definition socket_opens :: "nat \<Rightarrow> client \<Rightarrow> client" where
  "socket_opens k c =
     (if sockets c k = Some CONNECTING
      then ws_onopen (c\<lparr>sockets := (sockets c)(k \<mapsto> OPEN)\<rparr>)
      else c)"

definition socket_errors :: "nat \<Rightarrow> client \<Rightarrow> client" where
  "socket_errors k c = (if sockets c k = None then c else ws_onerror c)"

definition socket_closes :: "nat \<Rightarrow> client \<Rightarrow> client" where
  "socket_closes k c =
     (if sockets c k = None \<or> sockets c k = Some CLOSED then c
      else ws_onclose (c\<lparr>sockets := (sockets c)(k \<mapsto> CLOSED)\<rparr>))"

text \<open>
  Everything that can happen to a client: a method is called, or a callback runs. The
  second half of \<open>initialize()\<close> runs once the promise it waits for is decided. A
  message may come from any socket, the callback being the same for all.
\<close>

datatype event =
  CallConnect
| CallSetDiagnosticsHandler
| CallSetConnectionStatusHandler
| CallSendRequest jsstring "json option"
| CallSendNotification jsstring "json option"
| CallInitialize
| ResumeInitialize nat
| CallDisconnect
| WsOpen nat
| WsError nat
| WsMessage lsp_message
| WsClose nat
| TimerFires nat

fun step :: "client \<Rightarrow> event \<Rightarrow> client" where
  "step c CallConnect = connect c"
| "step c CallSetDiagnosticsHandler = setDiagnosticsHandler c"
| "step c CallSetConnectionStatusHandler = setConnectionStatusHandler c"
| "step c (CallSendRequest method params) = snd (sendRequest method params c)"
| "step c (CallSendNotification method params) = sendNotification method params c"
| "step c CallInitialize = snd (initialize c)"
| "step c (ResumeInitialize i) =
     (case promises c i of None \<Rightarrow> c | Some out \<Rightarrow> snd (initialize_resume out c))"
| "step c CallDisconnect = disconnect c"
| "step c (WsOpen k) = socket_opens k c"
| "step c (WsError k) = socket_errors k c"
| "step c (WsMessage message) = handleMessage message c"
| "step c (WsClose k) = socket_closes k c"
| "step c (TimerFires t) = fire_timeout t c"

definition run :: "client \<Rightarrow> event list \<Rightarrow> client" where
  "run c evs = foldl step c evs"


text \<open>The calls of \<open>resolve\<close> or \<open>reject\<close> made so far on the promise of request \<open>i\<close>.\<close>

definition settlements :: "client \<Rightarrow> nat \<Rightarrow> outcome list" where
  "settlements c i = map snd (filter (\<lambda>x. fst x = i) (settled c))"

text \<open>
  What holds of every state a client can reach, id by id: a pending entry holds the
  callbacks of its own id, its timeout is scheduled with the method of the request that
  was sent under that id, and its promise has not been touched; an id above the counter
  has never been used.
\<close>

definition request_ok :: "client \<Rightarrow> nat \<Rightarrow> bool" where
  "request_ok c i \<longleftrightarrow>
     (case pendingRequests c i of
        None \<Rightarrow> True
      | Some cb \<Rightarrow>
          cb = Callbacks i \<and> i \<le> messageId c
          \<and> (\<exists>method params.
                 timers c i = Some method \<and> Request i method params \<in> set (sent c))
          \<and> promises c i = None \<and> settlements c i = [])
     \<and> (if messageId c < i
         then timers c i = None \<and> promises c i = None \<and> settlements c i = []
         else True)"

definition consistent :: "client \<Rightarrow> bool" where
  "consistent c \<longleftrightarrow> (\<forall>i. request_ok c i)"



text \<open>What a response asks for: its error's message when it has an error, else its result.\<close>

definition response_outcome :: "lsp_message \<Rightarrow> outcome" where
  "response_outcome r =
     (case msg_error r of Some e \<Rightarrow> Rejected (error_message e) | None \<Rightarrow> Resolved (msg_result r))"

section \<open>The editor: the diagnostics handler (sysml-editor.tsx)\<close>

datatype severity_name = SevError | SevWarning | SevInfo | SevHint

record ErrorItem =
  line :: nat
  column :: nat
  message :: jsstring
  severity :: severity_name
  code :: "jsstring option"
  uri :: jsstring

text \<open>The markers given to Monaco; \<open>MarkerSeverity\<close> is Error 8, Warning 4, Info 2, Hint 1.\<close>

record marker =
  startLineNumber :: nat
  startColumn :: nat
  endLineNumber :: nat
  endColumn :: nat
  marker_message :: jsstring
  marker_severity :: nat
  marker_code :: "jsstring option"
  marker_source :: jsstring

text \<open>
  \<open>diagnostic.code?.toString()\<close>: a string as it is, a number as
  \<open>Number.prototype.toString\<close> prints it. How a number is printed (decimal digits, a
  fraction, an exponent from \<open>1e21\<close> on) is not fixed here: \<open>Number_toString\<close> is a
  parameter of the handler, and what is proved holds for every such function.
\<close>

definition code_toString :: "(js_number \<Rightarrow> jsstring) \<Rightarrow> diag_code \<Rightarrow> jsstring" where
  "code_toString Number_toString k =
     (case k of CodeNumber n \<Rightarrow> Number_toString n | CodeString s \<Rightarrow> s)"

definition to_marker :: "(js_number \<Rightarrow> jsstring) \<Rightarrow> diagnostic \<Rightarrow> marker" where
  "to_marker Number_toString d =
     \<lparr>startLineNumber = range_start_line d + 1,
      startColumn = range_start_character d + 1,
      endLineNumber = range_end_line d + 1,
      endColumn = range_end_character d + 1,
      marker_message = diag_message d,
      marker_severity =
        (if diag_severity d = Some 1 then 8
         else if diag_severity d = Some 2 then 4
         else if diag_severity d = Some 3 then 2
         else 1),
      marker_code = map_option (code_toString Number_toString) (diag_code d),
      marker_source = js ''SysIDE''\<rparr>"

definition to_ErrorItem :: "(js_number \<Rightarrow> jsstring) \<Rightarrow> jsstring \<Rightarrow> diagnostic \<Rightarrow> ErrorItem" where
  "to_ErrorItem Number_toString u d =
     \<lparr>line = range_start_line d + 1,
      column = range_start_character d + 1,
      message = diag_message d,
      severity =
        (if diag_severity d = Some 1 then SevError
         else if diag_severity d = Some 2 then SevWarning
         else if diag_severity d = Some 3 then SevInfo
         else SevHint),
      code = map_option (code_toString Number_toString) (diag_code d),
      uri = u\<rparr>"

text \<open>
  The part of the component's state the handler touches: the URIs of the Monaco models,
  the markers of owner \<open>"lsp"\<close> of each model, and \<open>currentErrors\<close>, the list shown in
  the problems panel for all files.
\<close>

record editor =
  models :: "jsstring list"
  modelMarkers :: "jsstring \<rightharpoonup> marker list"
  currentErrors :: "ErrorItem list"

definition setCurrentErrors_update ::
  "(js_number \<Rightarrow> jsstring) \<Rightarrow> jsstring \<Rightarrow> diagnostic list \<Rightarrow> ErrorItem list \<Rightarrow> ErrorItem list" where
  "setCurrentErrors_update Number_toString u diagnostics prevErrors =
     (let filteredErrors = filter (\<lambda>error. uri error \<noteq> u) prevErrors;
          newErrors = map (to_ErrorItem Number_toString u) diagnostics
      in filteredErrors @ newErrors)"

definition on_diagnostics ::
  "(js_number \<Rightarrow> jsstring) \<Rightarrow> jsstring \<Rightarrow> diagnostic list \<Rightarrow> editor \<Rightarrow> editor" where
  "on_diagnostics Number_toString u diagnostics ed =
     (let ed1 = (if u \<in> set (models ed)
                 then ed\<lparr>modelMarkers :=
                          (modelMarkers ed)(u \<mapsto> map (to_marker Number_toString) diagnostics)\<rparr>
                 else ed)
      in ed1\<lparr>currentErrors :=
               setCurrentErrors_update Number_toString u diagnostics (currentErrors ed1)\<rparr>)"

text \<open>A sequence of publishes, oldest first, each a URI with its diagnostics.\<close>

definition publish_all ::
  "(js_number \<Rightarrow> jsstring) \<Rightarrow> editor \<Rightarrow> (jsstring \<times> diagnostic list) list \<Rightarrow> editor" where
  "publish_all Number_toString ed pubs =
     foldl (\<lambda>e (u, ds). on_diagnostics Number_toString u ds e) ed pubs"

text \<open>
  The diagnostics most recently published for a URI in a sequence of publishes, and the
  entries of the problems list that belong to a URI.
\<close>

definition latest :: "(jsstring \<times> diagnostic list) list \<Rightarrow> jsstring \<Rightarrow> diagnostic list option" where
  "latest pubs u = map_of (rev pubs) u"

definition errors_of :: "editor \<Rightarrow> jsstring \<Rightarrow> ErrorItem list" where
  "errors_of ed u = filter (\<lambda>error. uri error = u) (currentErrors ed)"

section \<open>Examples\<close>

text \<open>
  A client that has connected once; the same after a hover request; and after a second
  request. Two URIs, a diagnostic on a given line, and an editor with no problems.
\<close>

abbreviation session_open :: client where
  "session_open \<equiv> socket_opens 0 (connect new_client)"

abbreviation one_request :: client where
  "one_request \<equiv> snd (sendRequest (js ''textDocument/hover'') None session_open)"

abbreviation two_requests :: client where
  "two_requests \<equiv> snd (sendRequest (js ''textDocument/semanticTokens/full'') None one_request)"






abbreviation uri_a :: jsstring where "uri_a \<equiv> js ''file:///a.sysml''"
abbreviation uri_b :: jsstring where "uri_b \<equiv> js ''file:///b.sysml''"

abbreviation diag :: "nat \<Rightarrow> jsstring \<Rightarrow> diagnostic" where
  "diag n text \<equiv>
     \<lparr>range_start_line = n, range_start_character = 0, range_end_line = n,
      range_end_character = 1, diag_severity = Some 1, diag_message = text,
      diag_code = None\<rparr>"

text \<open>The diagnostics of the examples carry no code: nothing is printed for them.\<close>

abbreviation unused_toString :: "js_number \<Rightarrow> jsstring" where
  "unused_toString \<equiv> (\<lambda>n. [])"

abbreviation no_errors :: editor where
  "no_errors \<equiv> \<lparr>models = [uri_a, uri_b], modelMarkers = Map.empty, currentErrors = []\<rparr>"

section \<open>The decoding loop\<close>

subsection \<open>One turn of the loop\<close>

lemma substring_eq: "a \<le> b \<Longrightarrow> b \<le> length s \<Longrightarrow> substring s a b = take (b - a) (drop a s)"
  by (simp add: substring_def Let_def min_def max_def)

lemma length_CRLFCRLF: "length CRLFCRLF = 4"
  by (simp add: CRLFCRLF_def js_def)

lemma indexOf_bound: "indexOf s CRLFCRLF = Some i \<Longrightarrow> i + 4 \<le> length s"
  using indexOf_le [of s CRLFCRLF i] by (simp add: length_CRLFCRLF)

lemma take_append_le: "n \<le> length xs \<Longrightarrow> take n (xs @ ys) = take n xs"
  by simp

lemma indexOf_append: "indexOf s pat = Some i \<Longrightarrow> indexOf (s @ t) pat = Some i"
proof (induction s arbitrary: i)
  case Nil
  then have "pat = []" "i = 0" by (simp_all split: if_splits)
  then show ?case by (cases t) simp_all
next
  case (Cons c cs)
  show ?case
  proof (cases "take (length pat) (c # cs) = pat")
    case True
    then have "length (take (length pat) (c # cs)) = length pat" by simp
    then have "length pat \<le> length (c # cs)" by (simp only: length_take)
    then have "take (length pat) ((c # cs) @ t) = pat"
      using True take_append_le [of "length pat" "c # cs" t] by simp
    moreover from True Cons.prems have "i = 0" by simp
    ultimately show ?thesis by simp
  next
    case False
    with Cons.prems obtain j where j: "indexOf cs pat = Some j" "i = Suc j" by auto
    from indexOf_le [OF j(1)] have "length pat \<le> length cs" by simp
    then have "take (length pat) ((c # cs) @ t) = take (length pat) (c # cs)"
      using take_append_le [of "length pat" "c # cs" t] by simp
    with False j Cons.IH [OF j(1)] show ?thesis by simp
  qed
qed

lemma drain_wait_header:
  "indexOf buffer CRLFCRLF = None \<Longrightarrow> drain P w buffer = ([], buffer)"
  by (subst drain.simps) simp

lemma drain_bad_header:
  assumes "indexOf buffer CRLFCRLF = Some i" "content_length_match (take i buffer) = None"
  shows "drain P w buffer = drain P w (drop (i + 4) buffer)"
proof -
  from assms(1) have "i \<le> length buffer" using indexOf_bound by fastforce
  then have "substring buffer 0 i = take i buffer" by (simp add: substring_eq)
  with assms show ?thesis
    by (subst drain.simps) (simp add: substring_from_def)
qed

lemma drain_wait_body:
  assumes "indexOf buffer CRLFCRLF = Some i" "content_length_match (take i buffer) = Some ds"
    "length buffer < i + 4 + parseInt ds"
  shows "drain P w buffer = ([], buffer)"
proof -
  from assms(1) have "i \<le> length buffer" using indexOf_bound by fastforce
  then have "substring buffer 0 i = take i buffer" by (simp add: substring_eq)
  with assms show ?thesis
    by (subst drain.simps) (simp add: substring_from_def)
qed

lemma drain_message:
  assumes "indexOf buffer CRLFCRLF = Some i" "content_length_match (take i buffer) = Some ds"
    "i + 4 + parseInt ds \<le> length buffer"
  shows "drain P w buffer =
     (case drain P w (drop (i + 4 + parseInt ds) buffer) of
        (out, rest) \<Rightarrow>
          ((if P (take (parseInt ds) (drop (i + 4) buffer)) \<and> w
            then [take (parseInt ds) (drop (i + 4) buffer)] else []) @ out, rest))"
proof -
  from assms(1) have "i \<le> length buffer" using indexOf_bound by fastforce
  then have "substring buffer 0 i = take i buffer" by (simp add: substring_eq)
  moreover have "substring buffer (i + 4) (i + 4 + parseInt ds) = take (parseInt ds) (drop (i + 4) buffer)"
    using assms(3) by (simp add: substring_eq)
  ultimately show ?thesis using assms
    by (subst drain.simps) (simp add: substring_from_def Let_def)
qed

lemma drain_append:
  "drain P w (b @ c) =
     (case drain P w b of (out1, b1) \<Rightarrow>
        case drain P w (b1 @ c) of (out2, b2) \<Rightarrow> (out1 @ out2, b2))"
proof (induction "length b" arbitrary: b rule: less_induct)
  case less
  show ?case
  proof (cases "indexOf b CRLFCRLF")
    case None
    then show ?thesis by (simp add: drain_wait_header split: prod.split)
  next
    case (Some i)
    then have i4: "i + 4 \<le> length b" by (rule indexOf_bound)
    have idx: "indexOf (b @ c) CRLFCRLF = Some i" using Some by (rule indexOf_append)
    have tk: "take i (b @ c) = take i b" using i4 by simp
    show ?thesis
    proof (cases "content_length_match (take i b)")
      case None
      have "drain P w (b @ c) = drain P w (drop (i + 4) b @ c)"
        using drain_bad_header [OF idx, of P w] None tk i4 by simp
      also have "\<dots> = (case drain P w (drop (i + 4) b) of (out1, b1) \<Rightarrow>
           case drain P w (b1 @ c) of (out2, b2) \<Rightarrow> (out1 @ out2, b2))"
        using i4 by (intro less) simp
      also have "drain P w (drop (i + 4) b) = drain P w b"
        using drain_bad_header [OF Some None] by simp
      finally show ?thesis .
    next
      case (Some ds)
      note m = this
      show ?thesis
      proof (cases "length b < i + 4 + parseInt ds")
        case True
        then show ?thesis
          using drain_wait_body [OF \<open>indexOf b CRLFCRLF = Some i\<close> m True]
          by (simp split: prod.split)
      next
        case False
        then have le: "i + 4 + parseInt ds \<le> length b" by simp
        let ?n = "parseInt ds"
        let ?body = "take ?n (drop (i + 4) b)"
        let ?s = "if P ?body \<and> w then [?body] else []"
        have body: "take ?n (drop (i + 4) (b @ c)) = ?body" using le by simp
        have "drain P w (b @ c) =
            (case drain P w (drop (i + 4 + ?n) b @ c) of (out, rest) \<Rightarrow> (?s @ out, rest))"
          using drain_message [OF idx, of ds P w] m tk le body by simp
        also have "drain P w (drop (i + 4 + ?n) b @ c) =
           (case drain P w (drop (i + 4 + ?n) b) of (out1, b1) \<Rightarrow>
             case drain P w (b1 @ c) of (out2, b2) \<Rightarrow> (out1 @ out2, b2))"
          using i4 le by (intro less) simp
        finally show ?thesis
          using drain_message [OF \<open>indexOf b CRLFCRLF = Some i\<close> m le, of P w]
          by (simp split: prod.split)
      qed
    qed
  qed
qed

subsection \<open>Decimal numbers and the header the encoder writes\<close>

lemma unat_digit_char: "d < 10 \<Longrightarrow> unat (digit_char d) = 0x30 + d"
proof -
  assume "d < 10"
  then have "(0x30 + d) mod 2 ^ LENGTH(16) = 0x30 + d" by simp
  then show ?thesis
    unfolding digit_char_def by (simp only: unat_of_nat)
qed

lemma is_digit_unat: "is_digit c \<longleftrightarrow> 0x30 \<le> unat c \<and> unat c \<le> 0x39"
  by (simp add: is_digit_def word_le_nat_alt)

lemma is_digit_digit_char: "d < 10 \<Longrightarrow> is_digit (digit_char d)"
  by (simp add: is_digit_unat unat_digit_char)

lemma digit_value_digit_char: "d < 10 \<Longrightarrow> digit_value (digit_char d) = d"
  by (simp add: digit_value_def unat_digit_char)

lemma decimal_digits: "\<forall>c \<in> set (decimal n). is_digit c"
proof (induction n rule: decimal.induct)
  case (1 n)
  show ?case
  proof (cases "n < 10")
    case True
    then show ?thesis by (subst decimal.simps) (simp add: is_digit_digit_char)
  next
    case False
    with 1 show ?thesis by (subst decimal.simps) (simp add: is_digit_digit_char)
  qed
qed

lemma decimal_not_Nil: "decimal n \<noteq> []"
  by (subst decimal.simps) simp

lemma parseInt_append: "parseInt (ds @ [c]) = parseInt ds * 10 + digit_value c"
  by (simp add: parseInt_def)

lemma parseInt_decimal: "parseInt (decimal n) = n"
proof (induction n rule: decimal.induct)
  case (1 n)
  show ?case
  proof (cases "n < 10")
    case True
    then show ?thesis
      by (subst decimal.simps) (simp add: parseInt_def digit_value_digit_char)
  next
    case False
    with 1 have "parseInt (decimal (n div 10)) = n div 10" by simp
    with False show ?thesis
      by (subst decimal.simps) (simp add: parseInt_append digit_value_digit_char)
  qed
qed

lemma is_digit_not_CR: "is_digit c \<Longrightarrow> c \<noteq> 0x0D"
  by (auto simp: is_digit_unat)

lemma CR_notin_literal: "0x0D \<notin> set (js ''Content-Length: '')"
  by (simp add: js_def)

lemma CR_notin_header: "0x0D \<notin> set (js ''Content-Length: '' @ decimal n)"
  using decimal_digits [of n] is_digit_not_CR CR_notin_literal by auto

lemma indexOf_terminator:
  "0x0D \<notin> set h \<Longrightarrow> indexOf (h @ CRLFCRLF @ rest) CRLFCRLF = Some (length h)"
proof (induction h)
  case Nil
  show ?case by (simp add: CRLFCRLF_def js_def)
next
  case (Cons c cs)
  then have "c \<noteq> 0x0D" by auto
  then have "take (length CRLFCRLF) ((c # cs) @ CRLFCRLF @ rest) \<noteq> CRLFCRLF"
    by (simp add: CRLFCRLF_def js_def)
  with Cons show ?case by simp
qed

lemma length_literal: "length (js ''Content-Length: '') = 16"
  by (simp add: js_def)

lemma takeWhile_digits: "\<forall>c \<in> set ds. is_digit c \<Longrightarrow> takeWhile is_digit ds = ds"
  by (simp add: takeWhile_eq_all_conv)

lemma content_length_match_here:
  assumes "take 16 s = content_length_literal" "takeWhile is_digit (drop 16 s) \<noteq> []"
  shows "content_length_match s = Some (takeWhile is_digit (drop 16 s))"
proof (cases s)
  case Nil
  with assms(1) show ?thesis by (simp add: content_length_literal_def js_def)
next
  case (Cons c cs)
  show ?thesis
    unfolding Cons using assms [unfolded Cons]
    by (simp only: content_length_match.simps simp_thms if_True)
qed

lemma content_length_match_header:
  "content_length_match (js ''Content-Length: '' @ decimal n) = Some (decimal n)"
proof -
  have t: "take 16 (js ''Content-Length: '' @ decimal n) = content_length_literal"
    by (simp add: content_length_literal_def length_literal)
  have d: "takeWhile is_digit (drop 16 (js ''Content-Length: '' @ decimal n)) = decimal n"
    using takeWhile_digits [OF decimal_digits [of n]] by (simp add: length_literal)
  show ?thesis
    using content_length_match_here [OF t] decimal_not_Nil [of n] by (simp only: d simp_thms)
qed

text \<open>
  A frame whose declared length is the number of code units of its body is taken off the
  buffer whole, whatever follows it.
\<close>

lemma drain_frame:
  "drain P w (js ''Content-Length: '' @ decimal (length m) @ CRLFCRLF @ m @ rest) =
     (case drain P w rest of
        (out, r) \<Rightarrow> ((if P m \<and> w then [m] else []) @ out, r))"
proof -
  define h where "h = js ''Content-Length: '' @ decimal (length m)"
  define b where "b = h @ CRLFCRLF @ m @ rest"
  have cr: "0x0D \<notin> set h" unfolding h_def by (rule CR_notin_header)
  have idx: "indexOf b CRLFCRLF = Some (length h)"
    unfolding b_def using cr by (rule indexOf_terminator)
  have hdr: "content_length_match (take (length h) b) = Some (decimal (length m))"
    unfolding b_def by (simp add: h_def content_length_match_header)
  have n: "parseInt (decimal (length m)) = length m" by (rule parseInt_decimal)
  have len: "length h + 4 + parseInt (decimal (length m)) \<le> length b"
    unfolding b_def n by (simp add: length_CRLFCRLF)
  have d1: "take (length m) (drop (length h + 4) b) = m"
    unfolding b_def by (simp add: length_CRLFCRLF)
  have d2: "drop (length h + 4 + length m) b = rest"
    unfolding b_def by (simp add: length_CRLFCRLF)
  have "drain P w b =
     (case drain P w rest of (out, r) \<Rightarrow> ((if P m \<and> w then [m] else []) @ out, r))"
    using drain_message [OF idx hdr len, of P w] unfolding n d1 d2 .
  then show ?thesis by (simp add: b_def h_def)
qed



subsection \<open>Streams of one-byte characters\<close>

text \<open>
  Where every character is one byte and one code unit, bytes and code units count the
  same: the encoder's length is the length the decoder compares with, and decoding a
  buffer chunk by chunk gives the same string as decoding it whole.
\<close>

lemma scalar_ascii: "u < 0x80 \<Longrightarrow> scalar_of_unit u = unat u"
  by (simp add: scalar_of_unit_def is_high_surrogate_def is_low_surrogate_def
      word_le_nat_alt word_less_nat_alt)

lemma not_high_ascii: "u < 0x80 \<Longrightarrow> \<not> is_high_surrogate u"
  by (simp add: is_high_surrogate_def word_le_nat_alt word_less_nat_alt)

lemma code_points_ascii: "ascii s \<Longrightarrow> code_points s = map unat s"
proof (induction s rule: code_points.induct)
  case 1
  show ?case by simp
next
  case (2 u)
  then show ?case by (simp add: ascii_def scalar_ascii)
next
  case (3 u v us)
  then have "u < 0x80" "ascii (v # us)" by (simp_all add: ascii_def)
  with 3 show ?case by (simp add: scalar_ascii not_high_ascii)
qed

lemma utf8_encode_ascii: "ascii s \<Longrightarrow> utf8_encode s = map (\<lambda>u. of_nat (unat u)) s"
proof -
  assume a: "ascii s"
  have "\<forall>u \<in> set s. utf8_of_code_point (unat u) = [of_nat (unat u)]"
    using a by (simp add: ascii_def utf8_of_code_point_def word_less_nat_alt)
  then have "concat (map utf8_of_code_point (map unat s)) = map (\<lambda>u. of_nat (unat u)) s"
    by (induction s) simp_all
  with a show ?thesis by (simp add: utf8_encode_def code_points_ascii)
qed

lemma byteLength_ascii: "ascii s \<Longrightarrow> byteLength s = length s"
  by (simp add: byteLength_def utf8_encode_ascii)

lemma utf8_run_ascii:
  "\<forall>b \<in> set bs. b < 0x80 \<Longrightarrow> utf8_run utf8_idle (bs @ cs) = bs @ utf8_run utf8_idle cs"
proof (induction bs)
  case Nil
  show ?case by simp
next
  case (Cons b bs)
  then have "b \<le> 0x7F" by simp
  then have "utf8_lead b = ([b], utf8_idle)" by (simp add: utf8_lead_def)
  moreover have "utf8_run utf8_idle ((b # bs) @ cs) =
      (case utf8_lead b of (out, st) \<Rightarrow> out @ utf8_run st (bs @ cs))"
    by (simp add: utf8_idle_def)
  ultimately show ?case using Cons by simp
qed


lemma utf8_decode_ascii_append:
  assumes "ascii_bytes bs"
  shows "utf8_decode (bs @ cs) = map (\<lambda>b. of_nat (unat b)) bs @ utf8_decode cs"
proof -
  have "\<forall>b \<in> set (map unat bs). b < 0x80"
    using assms by (simp add: ascii_bytes_def word_less_nat_alt)
  then have "utf8_run utf8_idle (map unat bs @ map unat cs) =
      map unat bs @ utf8_run utf8_idle (map unat cs)"
    by (rule utf8_run_ascii)
  moreover have "concat (map units_of_code_point (map unat bs)) = map (\<lambda>b. of_nat (unat b)) bs"
    using assms
    by (induction bs) (simp_all add: ascii_bytes_def units_of_code_point_def word_less_nat_alt)
  ultimately show ?thesis by (simp add: utf8_decode_def)
qed

lemma utf8_decode_Nil: "utf8_decode [] = []"
  by (simp add: utf8_decode_def utf8_idle_def)

lemma utf8_decode_ascii: "ascii_bytes bs \<Longrightarrow> utf8_decode bs = map (\<lambda>b. of_nat (unat b)) bs"
  using utf8_decode_ascii_append [of bs "[]"] by (simp add: utf8_decode_Nil)

lemma unat_ucast_small: "unat (u :: unit16) < 0x80 \<Longrightarrow> unat (ucast u :: byte) = unat u"
  by (simp add: unsigned_ucast_eq take_bit_eq_mod)

lemma utf8_roundtrip_ascii: "ascii s \<Longrightarrow> utf8_decode (utf8_encode s) = s"
proof -
  assume a: "ascii s"
  have u: "\<forall>u \<in> set s. unat u < 0x80" using a by (simp add: ascii_def word_less_nat_alt)
  have "\<forall>u \<in> set s. (of_nat (unat u) :: byte) < 0x80"
    using u by (simp add: word_less_nat_alt unat_ucast_small)
  then have "ascii_bytes (utf8_encode s)"
    using a by (simp add: utf8_encode_ascii ascii_bytes_def)
  then have "utf8_decode (utf8_encode s) = map (\<lambda>b. of_nat (unat b)) (utf8_encode s)"
    by (rule utf8_decode_ascii)
  also have "\<dots> = map (\<lambda>u. of_nat (unat (of_nat (unat u) :: byte))) s"
    using a by (simp add: utf8_encode_ascii comp_def)
  also have "\<dots> = map (\<lambda>u. u) s"
  proof (rule map_cong [OF refl])
    fix x assume "x \<in> set s"
    with u have "unat x < 0x80" by simp
    then have "unat (of_nat (unat x) :: byte) = unat x" by (simp add: unat_ucast_small)
    then show "(of_nat (unat (of_nat (unat x) :: byte)) :: unit16) = x" by simp
  qed
  finally show ?thesis by simp
qed

lemma ascii_append: "ascii (a @ b) \<longleftrightarrow> ascii a \<and> ascii b"
  by (auto simp: ascii_def)

lemma is_digit_ascii: "is_digit c \<Longrightarrow> c < 0x80"
  by (simp add: is_digit_unat word_less_nat_alt)

lemma ascii_decimal: "ascii (decimal n)"
  using decimal_digits [of n] is_digit_ascii by (auto simp: ascii_def)

lemma ascii_lspMessage: "ascii m \<Longrightarrow> ascii (lspMessage m)"
  by (simp add: lspMessage_def ascii_append ascii_decimal)
     (simp add: ascii_def js_def CRLFCRLF_def)

lemma drain_Nil: "drain P w [] = ([], [])"
  by (rule drain_wait_header) (simp add: CRLFCRLF_def js_def)

text \<open>
  The frame of a text of one-byte characters, fed back as one chunk into an empty
  buffer, is sent on as it was (when it parses and the socket is open), and the buffer
  is empty again.
\<close>

lemma roundtrip_ascii:
  assumes "ascii m"
  shows "on_data P w [] (stdin_write m) = (if P m \<and> w then [m] else [], [])"
proof -
  have "utf8_decode (stdin_write m) = lspMessage m"
    unfolding stdin_write_def using ascii_lspMessage [OF assms] by (rule utf8_roundtrip_ascii)
  also have "\<dots> = js ''Content-Length: '' @ decimal (length m) @ CRLFCRLF @ m @ []"
    by (simp add: lspMessage_def byteLength_ascii [OF assms])
  finally show ?thesis
    unfolding on_data_def by (simp only: append_Nil drain_frame drain_Nil) simp
qed

subsection \<open>Chunks\<close>

text \<open>
  The loop leaves a buffer it would leave unchanged again, and a run of data events
  sends what one run of the loop on all the decoded chunks sends. So chunks whose cuts
  do not fall inside a character are worth the whole stream.
\<close>

lemma drain_stable:
  assumes "drain P w b = (out, b1)"
  shows "drain P w b1 = ([], b1)"
proof -
  obtain out2 b2 where d: "drain P w b1 = (out2, b2)" by (cases "drain P w b1")
  from drain_append [of P w b "[]"] assms d show ?thesis by simp
qed

lemma on_data_all_drain:
  "on_data_all P w buf (d # later) = drain P w (buf @ concat (map utf8_decode (d # later)))"
proof (induction later arbitrary: buf d)
  case Nil
  show ?case by (simp add: on_data_def split: prod.split)
next
  case (Cons d' later)
  obtain out b' where o: "drain P w (buf @ utf8_decode d) = (out, b')"
    by (cases "drain P w (buf @ utf8_decode d)")
  have "on_data_all P w buf (d # d' # later) =
      (case on_data_all P w b' (d' # later) of (out', b'') \<Rightarrow> (out @ out', b''))"
    using o by (simp add: on_data_def)
  also have "on_data_all P w b' (d' # later) =
      drain P w (b' @ concat (map utf8_decode (d' # later)))"
    by (rule Cons.IH)
  finally show ?case
    using drain_append [of P w "buf @ utf8_decode d" "concat (map utf8_decode (d' # later))"] o
    by simp
qed

lemma chunks_same_as_whole:
  assumes "chunks \<noteq> []" "concat (map utf8_decode chunks) = utf8_decode (concat chunks)"
  shows "on_data_all P w buf chunks = on_data P w buf (concat chunks)"
proof -
  obtain d later where c: "chunks = d # later" using assms(1) by (cases chunks) auto
  show ?thesis
    unfolding c on_data_all_drain on_data_def using assms(2) [unfolded c] by simp
qed

lemma utf8_decode_concat_ascii:
  "\<forall>c \<in> set chunks. ascii_bytes c \<Longrightarrow> concat (map utf8_decode chunks) = utf8_decode (concat chunks)"
proof (induction chunks)
  case Nil
  show ?case by (simp add: utf8_decode_Nil)
next
  case (Cons c cs)
  then have "ascii_bytes c" by simp
  from utf8_decode_ascii_append [OF this, of "concat cs"] utf8_decode_ascii [OF this] Cons
  show ?case by simp
qed

lemma ascii_chunks_same_as_whole:
  assumes "chunks \<noteq> []" "\<forall>c \<in> set chunks. ascii_bytes c"
  shows "on_data_all P w buf chunks = on_data P w buf (concat chunks)"
  using assms(1) utf8_decode_concat_ascii [OF assms(2)] by (rule chunks_same_as_whole)

lemma ascii_bytes_utf8_encode: "ascii s \<Longrightarrow> ascii_bytes (utf8_encode s)"
proof -
  assume a: "ascii s"
  then have "\<forall>u \<in> set s. unat u < 0x80" by (simp add: ascii_def word_less_nat_alt)
  then have "\<forall>u \<in> set s. (of_nat (unat u) :: byte) < 0x80"
    by (simp add: word_less_nat_alt unat_ucast_small)
  with a show ?thesis by (simp add: utf8_encode_ascii ascii_bytes_def)
qed

text \<open>
  The frame of a text of one-byte characters, cut in two at any byte, is sent on as it
  was, once, and the buffer ends empty.
\<close>

lemma ascii_frame_in_two_chunks:
  assumes "ascii m"
  shows "on_data_all P w [] [take k (stdin_write m), drop k (stdin_write m)]
     = (if P m \<and> w then [m] else [], [])"
proof -
  have "ascii_bytes (stdin_write m)"
    unfolding stdin_write_def using ascii_lspMessage [OF assms] by (rule ascii_bytes_utf8_encode)
  then have "\<forall>c \<in> set [take k (stdin_write m), drop k (stdin_write m)]. ascii_bytes c"
    by (auto simp: ascii_bytes_def dest: in_set_takeD in_set_dropD)
  then have "on_data_all P w [] [take k (stdin_write m), drop k (stdin_write m)]
      = on_data P w [] (concat [take k (stdin_write m), drop k (stdin_write m)])"
    by (intro ascii_chunks_same_as_whole) simp
  also have "\<dots> = on_data P w [] (stdin_write m)" by simp
  finally show ?thesis by (simp only: roundtrip_ascii [OF assms])
qed

text \<open>A frame whose body is not complete yet is left in the buffer, and nothing is sent.\<close>

lemma drain_partial_body:
  assumes "length part < n"
  shows "drain P w (js ''Content-Length: '' @ decimal n @ CRLFCRLF @ part) =
     ([], js ''Content-Length: '' @ decimal n @ CRLFCRLF @ part)"
proof -
  define h where "h = js ''Content-Length: '' @ decimal n"
  define b where "b = h @ CRLFCRLF @ part"
  have cr: "0x0D \<notin> set h" unfolding h_def by (rule CR_notin_header)
  have idx: "indexOf b CRLFCRLF = Some (length h)"
    unfolding b_def using cr by (rule indexOf_terminator)
  have hdr: "content_length_match (take (length h) b) = Some (decimal n)"
    unfolding b_def by (simp add: h_def content_length_match_header)
  have len: "length b < length h + 4 + parseInt (decimal n)"
    unfolding b_def parseInt_decimal using assms by (simp add: length_CRLFCRLF)
  have "drain P w b = ([], b)"
    using idx hdr len by (rule drain_wait_body)
  then show ?thesis by (simp add: b_def h_def)
qed

subsection \<open>Frames with characters of more than one byte\<close>

lemmas drain_eval = drain.simps substring_def substring_from_def CRLFCRLF_def js_def
  content_length_literal_def parseInt_def digit_value_def is_digit_def

lemma stdin_write_example:
  "stdin_write [0x22, 0xE9, 0x22] =
     [67, 111, 110, 116, 101, 110, 116, 45, 76, 101, 110, 103, 116, 104, 58, 32, 52,
      13, 10, 13, 10, 34, 195, 169, 34]"
  by (simp add: stdin_write_def lspMessage_def byteLength_def utf8_encode_def
      utf8_of_code_point_def scalar_of_unit_def is_high_surrogate_def is_low_surrogate_def
      js_def CRLFCRLF_def digit_char_def decimal.simps)

lemma lspMessage_example:
  "lspMessage [0x22, 0xE9, 0x22] =
     [67, 111, 110, 116, 101, 110, 116, 45, 76, 101, 110, 103, 116, 104, 58, 32, 52,
      13, 10, 13, 10, 34, 233, 34]"
  by (simp add: lspMessage_def byteLength_def utf8_encode_def
      utf8_of_code_point_def scalar_of_unit_def is_high_surrogate_def is_low_surrogate_def
      js_def CRLFCRLF_def digit_char_def decimal.simps)

lemmas utf8_decode_eval = utf8_decode_def utf8_lead_def utf8_idle_def units_of_code_point_def

text \<open>
  Claim C1. Encoding a message and feeding the frame to the decoder gives the message
  back, also when the body has multi-byte UTF-8 characters: the decoder takes exactly N
  bytes of body. The encoder counts bytes (\<open>Buffer.byteLength\<close>), but the decoder compares
  \<open>buffer.length\<close>, a number of UTF-16 code units, with the declared length. The JSON
  text made of a quote, U+00E9 and a quote is 4 bytes and 3 code units: its frame,
  written by \<open>stdin_write\<close> and fed back as one chunk, is not decoded. Nothing is sent,
  and the whole frame stays in the buffer, one code unit short of the declared length.
\<close>

theorem multibyte_frame_is_not_decoded:
  "byteLength [0x22, 0xE9, 0x22] = 4
   \<and> length [0x22, 0xE9, 0x22 :: unit16] = 3
   \<and> drop 21 (stdin_write [0x22, 0xE9, 0x22]) = [0x22, 0xC3, 0xA9, 0x22]
   \<and> on_data JSON_parse_ok True [] (stdin_write [0x22, 0xE9, 0x22])
       = ([], lspMessage [0x22, 0xE9, 0x22])"
proof -
  have "byteLength [0x22, 0xE9, 0x22] = 4"
    by (simp add: byteLength_def utf8_encode_def utf8_of_code_point_def scalar_of_unit_def
        is_high_surrogate_def is_low_surrogate_def)
  moreover have "drop 21 (stdin_write [0x22, 0xE9, 0x22]) = [0x22, 0xC3, 0xA9, 0x22]"
    unfolding stdin_write_example by simp
  moreover have "on_data JSON_parse_ok True [] (stdin_write [0x22, 0xE9, 0x22])
       = ([], lspMessage [0x22, 0xE9, 0x22])"
    unfolding stdin_write_example lspMessage_example on_data_def
    by (simp add: utf8_decode_eval) (simp add: drain_eval)
  ultimately show ?thesis by simp
qed

text \<open>
  With a second frame behind it, the body taken for the first frame runs one code unit
  into the second: it ends with the \<open>C\<close> of the next header. What is left of that header
  is then dropped as a header block without a length, and the body of the second frame
  stays in the buffer: neither message is sent as it was written.
\<close>

lemma multibyte_frame_cuts_into_next_frame:
  "on_data JSON_parse_ok True [] (stdin_write [0x22, 0xE9, 0x22] @ stdin_write (js ''{}''))
     = (if JSON_parse_ok [0x22, 0xE9, 0x22, 0x43] then [[0x22, 0xE9, 0x22, 0x43]] else [],
        js ''{}'')"
proof -
  have w: "stdin_write (js ''{}'') =
      [67, 111, 110, 116, 101, 110, 116, 45, 76, 101, 110, 103, 116, 104, 58, 32, 50,
       13, 10, 13, 10, 123, 125]"
    by (simp add: stdin_write_def lspMessage_def byteLength_def utf8_encode_def
        utf8_of_code_point_def scalar_of_unit_def is_high_surrogate_def is_low_surrogate_def
        js_def CRLFCRLF_def digit_char_def decimal.simps)
  show ?thesis
    unfolding stdin_write_example w on_data_def
    by (simp add: utf8_decode_eval) (simp add: drain_eval)
qed

text \<open>
  Claim C2. Feeding the chunks of a stream of frames one at a time sends the same
  messages as feeding the stream as one chunk, wherever the stream is cut. Each chunk
  is decoded on its own (\<open>data.toString()\<close>), so a cut inside a multi-byte character
  yields two U+FFFD in place of the character. For the frame above, cut between the two
  bytes of U+00E9: the two replacement characters bring the buffer to the declared
  length, and what is sent is the text of a quote, two U+FFFD and a quote, whenever
  \<open>JSON.parse\<close> accepts it (it does); fed as one chunk, the same bytes send nothing.
\<close>

theorem split_inside_character_changes_output:
  "drop 21 (take 23 (stdin_write [0x22, 0xE9, 0x22])) = [0x22, 0xC3]
   \<and> drop 23 (stdin_write [0x22, 0xE9, 0x22]) = [0xA9, 0x22]
   \<and> on_data_all JSON_parse_ok True []
       [take 23 (stdin_write [0x22, 0xE9, 0x22]), drop 23 (stdin_write [0x22, 0xE9, 0x22])]
     = (if JSON_parse_ok [0x22, 0xFFFD, 0xFFFD, 0x22] then [[0x22, 0xFFFD, 0xFFFD, 0x22]] else [],
        [])
   \<and> on_data_all JSON_parse_ok True [] [stdin_write [0x22, 0xE9, 0x22]]
     = ([], lspMessage [0x22, 0xE9, 0x22])"
proof -
  have cut: "drop 21 (take 23 (stdin_write [0x22, 0xE9, 0x22])) = [0x22, 0xC3]"
    "drop 23 (stdin_write [0x22, 0xE9, 0x22]) = [0xA9, 0x22]"
    unfolding stdin_write_example by simp_all
  have a: "utf8_decode (take 23 (stdin_write [0x22, 0xE9, 0x22])) =
      js ''Content-Length: 4'' @ CRLFCRLF @ [0x22, 0xFFFD]"
    unfolding stdin_write_example by (simp add: utf8_decode_eval js_def CRLFCRLF_def)
  have b: "utf8_decode (drop 23 (stdin_write [0x22, 0xE9, 0x22])) = [0xFFFD, 0x22]"
    unfolding stdin_write_example by (simp add: utf8_decode_eval)
  have c: "drain JSON_parse_ok True (js ''Content-Length: 4'' @ CRLFCRLF @ [0x22, 0xFFFD]) =
      ([], js ''Content-Length: 4'' @ CRLFCRLF @ [0x22, 0xFFFD])"
    by (simp add: drain_eval)
  have d: "drain JSON_parse_ok True
        ((js ''Content-Length: 4'' @ CRLFCRLF @ [0x22, 0xFFFD]) @ [0xFFFD, 0x22]) =
      (if JSON_parse_ok [0x22, 0xFFFD, 0xFFFD, 0x22] then [[0x22, 0xFFFD, 0xFFFD, 0x22]] else [],
       [])"
    by (simp add: drain_eval)
  have e: "drain JSON_parse_ok True (utf8_decode (stdin_write [0x22, 0xE9, 0x22])) =
      ([], lspMessage [0x22, 0xE9, 0x22])"
    unfolding stdin_write_example lspMessage_example
    by (simp add: utf8_decode_eval) (simp add: drain_eval)
  have "on_data_all JSON_parse_ok True []
       [take 23 (stdin_write [0x22, 0xE9, 0x22]), drop 23 (stdin_write [0x22, 0xE9, 0x22])]
     = (if JSON_parse_ok [0x22, 0xFFFD, 0xFFFD, 0x22] then [[0x22, 0xFFFD, 0xFFFD, 0x22]] else [],
        [])"
    by (simp only: on_data_all.simps on_data_def append_Nil a b c d prod.case append_Nil2)
  moreover have "on_data_all JSON_parse_ok True [] [stdin_write [0x22, 0xE9, 0x22]]
     = ([], lspMessage [0x22, 0xE9, 0x22])"
    by (simp only: on_data_all.simps on_data_def append_Nil e prod.case append_Nil2)
  ultimately show ?thesis using cut by blast
qed

subsection \<open>Protocol errors\<close>





section \<open>The client: what every reachable state satisfies\<close>

subsection \<open>What each method and callback changes\<close>

lemma sendRequest_closed:
  "ws_readyState c \<noteq> Some OPEN \<Longrightarrow> sendRequest m p c = (Inl (js ''WebSocket not connected''), c)"
  by (simp add: sendRequest_def)


lemma sendRequest_open:
  assumes "ws_readyState c = Some OPEN"
  shows "fst (sendRequest m p c) = Inr (Suc (messageId c))"
    "messageId (snd (sendRequest m p c)) = Suc (messageId c)"
    "pendingRequests (snd (sendRequest m p c)) = (pendingRequests c)(Suc (messageId c) \<mapsto> Callbacks (Suc (messageId c)))"
    "timers (snd (sendRequest m p c)) = (timers c)(Suc (messageId c) \<mapsto> m)"
    "promises (snd (sendRequest m p c)) = promises c"
    "settled (snd (sendRequest m p c)) = settled c"
    "sent (snd (sendRequest m p c)) = sent c @ [Request (Suc (messageId c)) m p]"
    "ws_readyState (snd (sendRequest m p c)) = Some OPEN"
  using assms by (auto simp: sendRequest_def Let_def ws_readyState_def split: option.splits)

lemma sendRequest_connection:
  "ws (snd (sendRequest m p c)) = ws c" "sockets (snd (sendRequest m p c)) = sockets c"
  "isInitialized (snd (sendRequest m p c)) = isInitialized c"
  by (simp_all add: sendRequest_def Let_def)

lemma sendRequest_open_eq:
  "ws_readyState c = Some OPEN \<Longrightarrow>
     sendRequest m p c = (Inr (Suc (messageId c)), snd (sendRequest m p c))"
  by (simp add: prod_eq_iff sendRequest_open)

lemma handleMessage_response:
  assumes "msg_id r = Some j" "pendingRequests c j = Some (Callbacks j)"
  shows "pendingRequests (handleMessage r c) = (pendingRequests c)(j := None)"
    "timers (handleMessage r c) = (timers c)(j := None)"
    "promises (handleMessage r c) =
       (if promises c j = None then (promises c)(j \<mapsto> response_outcome r) else promises c)"
    "settled (handleMessage r c) = settled c @ [(j, response_outcome r)]"
    "messageId (handleMessage r c) = messageId c"
    "sent (handleMessage r c) = sent c"
    "ws (handleMessage r c) = ws c"
    "sockets (handleMessage r c) = sockets c"
    "isInitialized (handleMessage r c) = isInitialized c"
  using assms
  by (simp_all add: handleMessage_def callbacks_reject_def callbacks_resolve_def settle_def
      clearTimeout_def response_outcome_def Let_def split: option.splits)

lemma handleMessage_unmatched:
  assumes "msg_id r = None \<or> pendingRequests c (the (msg_id r)) = None"
  shows "pendingRequests (handleMessage r c) = pendingRequests c"
    "timers (handleMessage r c) = timers c"
    "promises (handleMessage r c) = promises c"
    "settled (handleMessage r c) = settled c"
    "messageId (handleMessage r c) = messageId c"
    "sent (handleMessage r c) = sent c"
    "ws (handleMessage r c) = ws c"
    "sockets (handleMessage r c) = sockets c"
    "isInitialized (handleMessage r c) = isInitialized c"
  using assms by (auto simp: handleMessage_def split: option.splits)

lemma handleMessage_discarded:
  assumes "msg_id r = None \<or> pendingRequests c (the (msg_id r)) = None"
    "msg_method r \<noteq> Some publishDiagnostics"
  shows "handleMessage r c = c"
  using assms by (auto simp: handleMessage_def)


lemma fire_timeout_pending:
  assumes "timers c t = Some m" "pendingRequests c t \<noteq> None"
  shows "pendingRequests (fire_timeout t c) = (pendingRequests c)(t := None)"
    "timers (fire_timeout t c) = (timers c)(t := None)"
    "promises (fire_timeout t c) =
       (if promises c t = None then (promises c)(t \<mapsto> Rejected (timeout_message m t)) else promises c)"
    "settled (fire_timeout t c) = settled c @ [(t, Rejected (timeout_message m t))]"
    "messageId (fire_timeout t c) = messageId c"
    "sent (fire_timeout t c) = sent c"
  using assms by (simp_all add: fire_timeout_def on_timeout_def settle_def)

lemma fire_timeout_not_pending:
  assumes "pendingRequests c t = None"
  shows "pendingRequests (fire_timeout t c) = pendingRequests c"
    "timers (fire_timeout t c) = (timers c)(t := None)"
    "promises (fire_timeout t c) = promises c"
    "settled (fire_timeout t c) = settled c"
    "messageId (fire_timeout t c) = messageId c"
    "sent (fire_timeout t c) = sent c"
  using assms by (auto simp: fire_timeout_def on_timeout_def split: option.splits)

lemma fire_timeout_cleared: "timers c t = None \<Longrightarrow> fire_timeout t c = c"
  by (simp add: fire_timeout_def)


lemma initialize_open:
  assumes "ws_readyState c = Some OPEN" "\<not> isInitialized c"
  shows "initialize c = (Awaiting (Suc (messageId c)),
           snd (sendRequest (js ''initialize'') (Some initialize_params) c))"
  unfolding initialize_def
  by (subst sendRequest_open_eq [OF assms(1)]) (simp add: assms(2))

lemma initialize_done: "isInitialized c \<Longrightarrow> initialize c = (Returned None, c)"
  by (simp add: initialize_def)

lemma initialize_refused:
  "\<not> isInitialized c \<Longrightarrow> ws_readyState c \<noteq> Some OPEN \<Longrightarrow>
     initialize c = (Threw (js ''WebSocket not connected''), c)"
  by (simp add: initialize_def sendRequest_closed)

text \<open>
  The calls and callbacks that touch neither the requests nor the counter: connecting,
  disconnecting apart from the pending map, the two setters, and the events of a socket.
\<close>

lemma connection_events:
  "messageId (connect c) = messageId c" "timers (connect c) = timers c"
  "promises (connect c) = promises c" "settled (connect c) = settled c"
  "pendingRequests (connect c) = pendingRequests c" "sent (connect c) = sent c"
  "messageId (disconnect c) = messageId c" "timers (disconnect c) = timers c"
  "promises (disconnect c) = promises c" "settled (disconnect c) = settled c"
  "pendingRequests (disconnect c) = Map.empty" "sent (disconnect c) = sent c"
  "messageId (socket_opens k c) = messageId c" "timers (socket_opens k c) = timers c"
  "promises (socket_opens k c) = promises c" "settled (socket_opens k c) = settled c"
  "pendingRequests (socket_opens k c) = pendingRequests c" "sent (socket_opens k c) = sent c"
  "messageId (socket_errors k c) = messageId c" "timers (socket_errors k c) = timers c"
  "promises (socket_errors k c) = promises c" "settled (socket_errors k c) = settled c"
  "pendingRequests (socket_errors k c) = pendingRequests c" "sent (socket_errors k c) = sent c"
  "messageId (socket_closes k c) = messageId c" "timers (socket_closes k c) = timers c"
  "promises (socket_closes k c) = promises c" "settled (socket_closes k c) = settled c"
  "pendingRequests (socket_closes k c) = pendingRequests c" "sent (socket_closes k c) = sent c"
  by (simp_all add: connect_def disconnect_def ws_close_def socket_opens_def socket_errors_def
      socket_closes_def ws_onopen_def ws_onerror_def ws_onclose_def notify_status_def Let_def
      split: option.splits)

lemma setter_events:
  "messageId (setDiagnosticsHandler c) = messageId c"
  "timers (setDiagnosticsHandler c) = timers c"
  "promises (setDiagnosticsHandler c) = promises c"
  "settled (setDiagnosticsHandler c) = settled c"
  "pendingRequests (setDiagnosticsHandler c) = pendingRequests c"
  "sent (setDiagnosticsHandler c) = sent c"
  "messageId (setConnectionStatusHandler c) = messageId c"
  "timers (setConnectionStatusHandler c) = timers c"
  "promises (setConnectionStatusHandler c) = promises c"
  "settled (setConnectionStatusHandler c) = settled c"
  "pendingRequests (setConnectionStatusHandler c) = pendingRequests c"
  "sent (setConnectionStatusHandler c) = sent c"
  by (simp_all add: setDiagnosticsHandler_def setConnectionStatusHandler_def)

lemma sendNotification_events:
  "messageId (sendNotification m p c) = messageId c"
  "timers (sendNotification m p c) = timers c"
  "promises (sendNotification m p c) = promises c"
  "settled (sendNotification m p c) = settled c"
  "pendingRequests (sendNotification m p c) = pendingRequests c"
  "set (sent c) \<subseteq> set (sent (sendNotification m p c))"
  by (auto simp: sendNotification_def)

lemma initialize_resume_events:
  "messageId (snd (initialize_resume out c)) = messageId c"
  "timers (snd (initialize_resume out c)) = timers c"
  "promises (snd (initialize_resume out c)) = promises c"
  "settled (snd (initialize_resume out c)) = settled c"
  "pendingRequests (snd (initialize_resume out c)) = pendingRequests c"
  "set (sent c) \<subseteq> set (sent (snd (initialize_resume out c)))"
  by (auto simp: initialize_resume_def sendNotification_def Let_def split: outcome.splits)

subsection \<open>Consistency is kept by every event\<close>

lemma consistent_new: "consistent new_client"
  by (simp add: consistent_def request_ok_def new_client_def settlements_def)

lemma consistentD: "consistent c \<Longrightarrow> request_ok c i"
  by (simp add: consistent_def)

lemma pending_callbacks:
  "consistent c \<Longrightarrow> pendingRequests c i = Some cb \<Longrightarrow> cb = Callbacks i"
  using consistentD [of c i] by (simp add: request_ok_def)

lemma pending_unsettled:
  "consistent c \<Longrightarrow> pendingRequests c i = Some cb \<Longrightarrow> promises c i = None \<and> settlements c i = []"
  using consistentD [of c i] by (simp add: request_ok_def)

lemma pending_le: "consistent c \<Longrightarrow> pendingRequests c i = Some cb \<Longrightarrow> i \<le> messageId c"
  using consistentD [of c i] by (simp add: request_ok_def)

lemma consistent_simple:
  assumes "consistent c"
    "messageId c' = messageId c" "timers c' = timers c" "promises c' = promises c"
    "settled c' = settled c" "pendingRequests c' = pendingRequests c \<or> pendingRequests c' = Map.empty"
    "set (sent c) \<subseteq> set (sent c')"
  shows "consistent c'"
  unfolding consistent_def
proof
  fix i
  from assms(1) have "request_ok c i" by (rule consistentD)
  with assms(2-) show "request_ok c' i"
    by (auto simp: request_ok_def settlements_def split: option.splits if_splits)
qed

lemma consistent_sendRequest:
  assumes "consistent c"
  shows "consistent (snd (sendRequest m p c))"
proof (cases "ws_readyState c = Some OPEN")
  case False
  then show ?thesis using assms by (simp add: sendRequest_closed)
next
  case True
  show ?thesis
    unfolding consistent_def
  proof
    fix i
    from assms have "request_ok c i" "request_ok c (Suc (messageId c))"
      by (simp_all add: consistentD)
    then show "request_ok (snd (sendRequest m p c)) i"
      by (auto simp: request_ok_def sendRequest_open [OF True] settlements_def
          split: option.splits if_splits)
  qed
qed

lemma consistent_handleMessage:
  assumes "consistent c"
  shows "consistent (handleMessage r c)"
proof (cases "msg_id r = None \<or> pendingRequests c (the (msg_id r)) = None")
  case True
  show ?thesis
    by (rule consistent_simple [OF assms]) (simp_all add: handleMessage_unmatched [OF True])
next
  case False
  then obtain j cb where j: "msg_id r = Some j" "pendingRequests c j = Some cb" by auto
  with assms have p: "pendingRequests c j = Some (Callbacks j)"
    using pending_callbacks by simp
  show ?thesis
    unfolding consistent_def
  proof
    fix i
    from assms have "request_ok c i" "request_ok c j" by (simp_all add: consistentD)
    then show "request_ok (handleMessage r c) i"
      using p
      by (auto simp: request_ok_def handleMessage_response [OF j(1) p] settlements_def
          split: option.splits if_splits)
  qed
qed

lemma consistent_fire_timeout:
  assumes "consistent c"
  shows "consistent (fire_timeout t c)"
proof (cases "timers c t")
  case None
  then show ?thesis using assms by (simp add: fire_timeout_cleared)
next
  case (Some m)
  show ?thesis
  proof (cases "pendingRequests c t")
    case None
    show ?thesis
      unfolding consistent_def
    proof
      fix i
      from assms have "request_ok c i" "request_ok c t" by (simp_all add: consistentD)
      then show "request_ok (fire_timeout t c) i"
        using None
        by (auto simp: request_ok_def fire_timeout_not_pending [OF None] settlements_def
            split: option.splits if_splits)
    qed
  next
    case (Some cb)
    then have p: "pendingRequests c t \<noteq> None" by simp
    show ?thesis
      unfolding consistent_def
    proof
      fix i
      from assms have "request_ok c i" "request_ok c t" by (simp_all add: consistentD)
      then show "request_ok (fire_timeout t c) i"
        using Some
        by (auto simp: request_ok_def fire_timeout_pending [OF \<open>timers c t = Some m\<close> p]
            settlements_def split: option.splits if_splits)
    qed
  qed
qed

lemma consistent_sendNotification: "consistent c \<Longrightarrow> consistent (sendNotification m p c)"
  by (erule consistent_simple) (simp_all add: sendNotification_events)

lemma consistent_step:
  assumes "consistent c"
  shows "consistent (step c ev)"
proof (cases ev)
  case (CallSendRequest m p)
  then show ?thesis using assms by (simp add: consistent_sendRequest)
next
  case (WsMessage r)
  then show ?thesis using assms by (simp add: consistent_handleMessage)
next
  case (TimerFires t)
  then show ?thesis using assms by (simp add: consistent_fire_timeout)
next
  case CallInitialize
  have "snd (initialize c) = c \<or> snd (initialize c) = snd (sendRequest (js ''initialize'') (Some initialize_params) c)"
    by (simp add: initialize_def split: prod.splits sum.splits)
  then show ?thesis
    using CallInitialize assms consistent_sendRequest [OF assms, of "js ''initialize''" "Some initialize_params"]
    by auto
next
  case (ResumeInitialize i)
  show ?thesis
  proof (cases "promises c i")
    case None
    then show ?thesis using assms by (simp add: ResumeInitialize)
  next
    case (Some out)
    have "consistent (snd (initialize_resume out c))"
      by (rule consistent_simple [OF assms]) (simp_all add: initialize_resume_events)
    then show ?thesis by (simp add: ResumeInitialize Some)
  qed
next
  case (CallSendNotification m p)
  then show ?thesis using assms by (simp add: consistent_sendNotification)
next
  case CallConnect
  show ?thesis unfolding CallConnect step.simps
    by (rule consistent_simple [OF assms]) (simp_all add: connection_events)
next
  case CallSetDiagnosticsHandler
  show ?thesis unfolding CallSetDiagnosticsHandler step.simps
    by (rule consistent_simple [OF assms]) (simp_all add: setter_events)
next
  case CallSetConnectionStatusHandler
  show ?thesis unfolding CallSetConnectionStatusHandler step.simps
    by (rule consistent_simple [OF assms]) (simp_all add: setter_events)
next
  case CallDisconnect
  show ?thesis unfolding CallDisconnect step.simps
    by (rule consistent_simple [OF assms]) (simp_all add: connection_events)
next
  case (WsOpen k)
  show ?thesis unfolding WsOpen step.simps
    by (rule consistent_simple [OF assms]) (simp_all add: connection_events)
next
  case (WsError k)
  show ?thesis unfolding WsError step.simps
    by (rule consistent_simple [OF assms]) (simp_all add: connection_events)
next
  case (WsClose k)
  show ?thesis unfolding WsClose step.simps
    by (rule consistent_simple [OF assms]) (simp_all add: connection_events)
qed

lemma consistent_run: "consistent c \<Longrightarrow> consistent (run c evs)"
  unfolding run_def by (induction evs arbitrary: c) (simp_all add: consistent_step)

text \<open>So every state a new client reaches, by whatever events, is consistent.\<close>

lemma reachable_consistent: "consistent (run new_client evs)"
  by (rule consistent_run [OF consistent_new])

lemma pending_request_sent:
  "consistent c \<Longrightarrow> pendingRequests c i = Some cb \<Longrightarrow> timers c i = Some method \<Longrightarrow>
     \<exists>params. Request i method params \<in> set (sent c)"
  using consistentD [of c i] by (auto simp: request_ok_def)

lemma run_Cons: "run c (ev # evs) = run (step c ev) evs"
  by (simp add: run_def)

subsection \<open>A request that is no longer pending is never settled again\<close>

lemma settlements_append: "settled c' = settled c @ [(j, out)] \<Longrightarrow> j \<noteq> i \<Longrightarrow> settlements c' i = settlements c i"
  by (simp add: settlements_def)

lemma retired_step:
  assumes "consistent c" "pendingRequests c i = None" "i \<le> messageId c"
  shows "pendingRequests (step c ev) i = None \<and> i \<le> messageId (step c ev)
     \<and> promises (step c ev) i = promises c i \<and> settlements (step c ev) i = settlements c i"
proof (cases ev)
  case (CallSendRequest m p)
  show ?thesis
  proof (cases "ws_readyState c = Some OPEN")
    case True
    with assms show ?thesis
      by (simp add: CallSendRequest sendRequest_open settlements_def)
  next
    case False
    with assms show ?thesis by (simp add: CallSendRequest sendRequest_closed)
  qed
next
  case CallInitialize
  show ?thesis
  proof (cases "ws_readyState c = Some OPEN \<and> \<not> isInitialized c")
    case True
    then have "snd (initialize c) = snd (sendRequest (js ''initialize'') (Some initialize_params) c)"
      by (simp add: initialize_open)
    with assms True show ?thesis
      by (simp add: CallInitialize sendRequest_open settlements_def)
  next
    case False
    then have "snd (initialize c) = c"
      by (cases "isInitialized c") (auto simp: initialize_done initialize_refused)
    with assms show ?thesis by (simp add: CallInitialize)
  qed
next
  case (WsMessage r)
  show ?thesis
  proof (cases "msg_id r = None \<or> pendingRequests c (the (msg_id r)) = None")
    case True
    with assms show ?thesis
      by (simp add: WsMessage handleMessage_unmatched settlements_def)
  next
    case False
    then obtain j cb where j: "msg_id r = Some j" "pendingRequests c j = Some cb" by auto
    with assms have p: "pendingRequests c j = Some (Callbacks j)"
      using pending_callbacks by simp
    from j assms have ne: "j \<noteq> i" by auto
    from pending_unsettled [OF assms(1) p] have "promises c j = None" by simp
    with assms ne show ?thesis
      by (simp add: WsMessage handleMessage_response [OF j(1) p]
          settlements_append [OF handleMessage_response(4) [OF j(1) p]])
  qed
next
  case (TimerFires t)
  show ?thesis
  proof (cases "timers c t")
    case None
    with assms show ?thesis by (simp add: TimerFires fire_timeout_cleared)
  next
    case (Some m)
    show ?thesis
    proof (cases "pendingRequests c t")
      case None
      with assms show ?thesis
        by (simp add: TimerFires fire_timeout_not_pending settlements_def)
    next
      case (Some cb)
      then have p: "pendingRequests c t \<noteq> None" by simp
      with assms have ne: "t \<noteq> i" by auto
      from pending_unsettled [OF assms(1) Some] have "promises c t = None" by simp
      with assms ne show ?thesis
        by (simp add: TimerFires fire_timeout_pending [OF \<open>timers c t = Some m\<close> p]
            settlements_append [OF fire_timeout_pending(4) [OF \<open>timers c t = Some m\<close> p]])
    qed
  qed
next
  case (ResumeInitialize k)
  show ?thesis
  proof (cases "promises c k")
    case None
    with assms show ?thesis by (simp add: ResumeInitialize)
  next
    case (Some out)
    with assms show ?thesis
      by (simp add: ResumeInitialize initialize_resume_events settlements_def)
  qed
next
  case (CallSendNotification m p)
  with assms show ?thesis by (simp add: sendNotification_events settlements_def)
next
  case CallConnect
  with assms show ?thesis by (simp add: connection_events settlements_def)
next
  case CallSetDiagnosticsHandler
  with assms show ?thesis by (simp add: setter_events settlements_def)
next
  case CallSetConnectionStatusHandler
  with assms show ?thesis by (simp add: setter_events settlements_def)
next
  case CallDisconnect
  with assms show ?thesis by (simp add: connection_events settlements_def)
next
  case (WsOpen k)
  with assms show ?thesis by (simp add: connection_events settlements_def)
next
  case (WsError k)
  with assms show ?thesis by (simp add: connection_events settlements_def)
next
  case (WsClose k)
  with assms show ?thesis by (simp add: connection_events settlements_def)
qed

lemma retired_run:
  assumes "consistent c" "pendingRequests c i = None" "i \<le> messageId c"
  shows "pendingRequests (run c evs) i = None
     \<and> promises (run c evs) i = promises c i \<and> settlements (run c evs) i = settlements c i"
  using assms
proof (induction evs arbitrary: c)
  case Nil
  then show ?case by (simp add: run_def)
next
  case (Cons ev evs)
  from retired_step [OF Cons.prems, of ev]
  have s: "pendingRequests (step c ev) i = None" "i \<le> messageId (step c ev)"
    "promises (step c ev) i = promises c i" "settlements (step c ev) i = settlements c i"
    by simp_all
  from Cons.IH [OF consistent_step [OF Cons.prems(1)] s(1,2)] s(3,4)
  show ?case by (simp add: run_Cons)
qed

subsection \<open>A pending request stays under its timeout until it is settled\<close>

text \<open>
  Short of \<open>disconnect()\<close>, an event leaves a pending request pending, with its timeout
  scheduled, or settles it: a response with its id does, with the response's outcome,
  and so does its timeout, with the timeout error.
\<close>

lemma pending_step:
  assumes "consistent c" "pendingRequests c i \<noteq> None" "timers c i = Some method"
    and "ev \<noteq> CallDisconnect"
  shows "(pendingRequests (step c ev) i \<noteq> None \<and> timers (step c ev) i = Some method)
     \<or> (pendingRequests (step c ev) i = None \<and> i \<le> messageId (step c ev)
         \<and> (\<exists>out. promises (step c ev) i = Some out \<and> settlements (step c ev) i = [out]
               \<and> (out = Rejected (timeout_message method i)
                   \<or> (\<exists>r. ev = WsMessage r \<and> msg_id r = Some i \<and> out = response_outcome r))))"
proof -
  from assms(2) obtain cb where cb: "pendingRequests c i = Some cb" by auto
  from pending_unsettled [OF assms(1) cb] have u: "promises c i = None" "settlements c i = []"
    by simp_all
  from pending_le [OF assms(1) cb] have le: "i \<le> messageId c" .
  from pending_callbacks [OF assms(1) cb] cb have pi: "pendingRequests c i = Some (Callbacks i)"
    by simp
  show ?thesis
  proof (cases ev)
    case (CallSendRequest m p)
    show ?thesis
    proof (cases "ws_readyState c = Some OPEN")
      case True
      with assms le show ?thesis by (simp add: CallSendRequest sendRequest_open)
    next
      case False
      with assms show ?thesis by (simp add: CallSendRequest sendRequest_closed)
    qed
  next
    case CallInitialize
    show ?thesis
    proof (cases "ws_readyState c = Some OPEN \<and> \<not> isInitialized c")
      case True
      then have "snd (initialize c) = snd (sendRequest (js ''initialize'') (Some initialize_params) c)"
        by (simp add: initialize_open)
      with assms le True show ?thesis by (simp add: CallInitialize sendRequest_open)
    next
      case False
      then have "snd (initialize c) = c"
        by (cases "isInitialized c") (auto simp: initialize_done initialize_refused)
      with assms show ?thesis by (simp add: CallInitialize)
    qed
  next
    case (WsMessage r)
    show ?thesis
    proof (cases "msg_id r = None \<or> pendingRequests c (the (msg_id r)) = None")
      case True
      with assms show ?thesis by (simp add: WsMessage handleMessage_unmatched)
    next
      case False
      then obtain j cb' where j: "msg_id r = Some j" "pendingRequests c j = Some cb'" by auto
      with assms have p: "pendingRequests c j = Some (Callbacks j)"
        using pending_callbacks by simp
      note h = handleMessage_response [OF j(1) p]
      show ?thesis
      proof (cases "j = i")
        case True
        with u le j(1) show ?thesis
          by (simp add: WsMessage h settlements_def)
      next
        case False
        with assms show ?thesis by (simp add: WsMessage h)
      qed
    qed
  next
    case (TimerFires t)
    show ?thesis
    proof (cases "timers c t")
      case None
      with assms show ?thesis by (simp add: TimerFires fire_timeout_cleared)
    next
      case (Some m)
      show ?thesis
      proof (cases "t = i")
        case True
        with Some assms(3) have m: "m = method" by simp
        note f = fire_timeout_pending [OF assms(3) assms(2)]
        from u le show ?thesis
          by (simp add: TimerFires True f settlements_def)
      next
        case False
        show ?thesis
        proof (cases "pendingRequests c t")
          case None
          with assms False show ?thesis
            by (simp add: TimerFires fire_timeout_not_pending)
        next
          case (Some cb')
          then have p: "pendingRequests c t \<noteq> None" by simp
          with assms False show ?thesis
            by (simp add: TimerFires fire_timeout_pending [OF \<open>timers c t = Some m\<close> p])
        qed
      qed
    qed
  next
    case (ResumeInitialize k)
    show ?thesis
    proof (cases "promises c k")
      case None
      with assms show ?thesis by (simp add: ResumeInitialize)
    next
      case (Some out)
      with assms show ?thesis by (simp add: ResumeInitialize initialize_resume_events)
    qed
  next
    case (CallSendNotification m p)
    with assms show ?thesis by (simp add: sendNotification_events)
  next
    case CallConnect
    with assms show ?thesis by (simp add: connection_events)
  next
    case CallSetDiagnosticsHandler
    with assms show ?thesis by (simp add: setter_events)
  next
    case CallSetConnectionStatusHandler
    with assms show ?thesis by (simp add: setter_events)
  next
    case CallDisconnect
    with assms(4) show ?thesis by simp
  next
    case (WsOpen k)
    with assms show ?thesis by (simp add: connection_events)
  next
    case (WsError k)
    with assms show ?thesis by (simp add: connection_events)
  next
    case (WsClose k)
    with assms show ?thesis by (simp add: connection_events)
  qed
qed

lemma pending_run:
  assumes "consistent c" "pendingRequests c i \<noteq> None" "timers c i = Some method"
    and "CallDisconnect \<notin> set evs"
  shows "(pendingRequests (run c evs) i \<noteq> None \<and> timers (run c evs) i = Some method)
     \<or> (pendingRequests (run c evs) i = None
         \<and> (\<exists>out. promises (run c evs) i = Some out \<and> settlements (run c evs) i = [out]
               \<and> (out = Rejected (timeout_message method i)
                   \<or> (\<exists>r. WsMessage r \<in> set evs \<and> msg_id r = Some i
                          \<and> out = response_outcome r))))"
  using assms
proof (induction evs arbitrary: c)
  case Nil
  then show ?case by (simp add: run_def)
next
  case (Cons ev evs)
  from Cons.prems(4) have ne: "ev \<noteq> CallDisconnect" "CallDisconnect \<notin> set evs" by auto
  note c1 = consistent_step [OF Cons.prems(1), of ev]
  from pending_step [OF Cons.prems(1,2,3) ne(1)] show ?case
  proof
    assume a: "pendingRequests (step c ev) i \<noteq> None \<and> timers (step c ev) i = Some method"
    then have "pendingRequests (step c ev) i \<noteq> None" "timers (step c ev) i = Some method"
      by simp_all
    from Cons.IH [OF c1 this ne(2)] show ?thesis
      unfolding run_Cons by auto
  next
    assume a: "pendingRequests (step c ev) i = None \<and> i \<le> messageId (step c ev)
         \<and> (\<exists>out. promises (step c ev) i = Some out \<and> settlements (step c ev) i = [out]
               \<and> (out = Rejected (timeout_message method i)
                   \<or> (\<exists>r. ev = WsMessage r \<and> msg_id r = Some i \<and> out = response_outcome r)))"
    then have n: "pendingRequests (step c ev) i = None" "i \<le> messageId (step c ev)"
      by simp_all
    from a obtain out where out: "promises (step c ev) i = Some out"
      "settlements (step c ev) i = [out]"
      "out = Rejected (timeout_message method i)
         \<or> (\<exists>r. ev = WsMessage r \<and> msg_id r = Some i \<and> out = response_outcome r)"
      by blast
    from retired_run [OF c1 n, of evs] out(1,2)
    have "pendingRequests (run c (ev # evs)) i = None"
      "promises (run c (ev # evs)) i = Some out" "settlements (run c (ev # evs)) i = [out]"
      by (simp_all add: run_Cons)
    moreover from out(3) have "out = Rejected (timeout_message method i)
        \<or> (\<exists>r. WsMessage r \<in> set (ev # evs) \<and> msg_id r = Some i \<and> out = response_outcome r)"
      by auto
    ultimately show ?thesis by blast
  qed
qed

subsection \<open>The example sessions\<close>

lemma session_open_facts:
  "consistent session_open" "ws_readyState session_open = Some OPEN"
  "messageId session_open = 0" "\<not> isInitialized session_open" "sent session_open = []"
  "ws session_open = Some 0" "sockets session_open = [0 \<mapsto> OPEN]"
  "promises session_open = Map.empty" "settled session_open = []"
proof -
  have "consistent (step (step new_client CallConnect) (WsOpen 0))"
    by (intro consistent_step consistent_new)
  then show "consistent session_open" by simp
qed (simp_all add: socket_opens_def ws_onopen_def connect_def notify_status_def new_client_def
    ws_readyState_def Let_def)

lemma one_request_facts:
  "consistent one_request" "ws_readyState one_request = Some OPEN"
  "messageId one_request = Suc 0"
  "pendingRequests one_request (Suc 0) = Some (Callbacks (Suc 0))"
  "timers one_request (Suc 0) = Some (js ''textDocument/hover'')"
  "ws one_request = Some 0" "sockets one_request = [0 \<mapsto> OPEN]"
  "promises one_request = Map.empty" "settled one_request = []"
  using consistent_sendRequest [OF session_open_facts(1)]
  by (simp_all add: sendRequest_open [OF session_open_facts(2)] sendRequest_connection
      session_open_facts)

lemma two_requests_facts:
  "consistent two_requests"
  "pendingRequests two_requests (Suc 0) = Some (Callbacks (Suc 0))"
  "pendingRequests two_requests (Suc (Suc 0)) = Some (Callbacks (Suc (Suc 0)))"
  using consistent_sendRequest [OF one_request_facts(1)]
  by (simp_all add: sendRequest_open [OF one_request_facts(2)] one_request_facts)

section \<open>The client: the claims\<close>

subsection \<open>Timeouts\<close>

text \<open>
  What the timeout does for a request that is still pending when its timer fires. The
  method the timer carries is the method of the request that was sent under the id. The
  promise is rejected with the timeout message, which spells out the method and the id;
  that is the only call ever made on the promise, whatever happens afterwards; and a
  late response (any message with that id that is not a diagnostics notification) leaves
  the whole state as it is.
\<close>

lemma timeout_rejects_pending_request:
  assumes "consistent c" "pendingRequests c i \<noteq> None" "timers c i = Some method"
  shows "(\<exists>params. Request i method params \<in> set (sent c))
     \<and> promises (fire_timeout i c) i = Some (Rejected (timeout_message method i))
     \<and> settlements (fire_timeout i c) i = [Rejected (timeout_message method i)]
     \<and> timeout_message method i
         = js ''Request '' @ method @ js '' (id: '' @ decimal i
             @ js '') timed out after 30 seconds''
     \<and> pendingRequests (fire_timeout i c) i = None
     \<and> (\<forall>r. msg_id r = Some i \<and> msg_method r \<noteq> Some publishDiagnostics \<longrightarrow>
           handleMessage r (fire_timeout i c) = fire_timeout i c)
     \<and> (\<forall>evs. promises (run (fire_timeout i c) evs) i = Some (Rejected (timeout_message method i))
           \<and> settlements (run (fire_timeout i c) evs) i = [Rejected (timeout_message method i)])"
proof -
  let ?c1 = "fire_timeout i c"
  let ?out = "Rejected (timeout_message method i)"
  from assms(2) obtain cb where cb: "pendingRequests c i = Some cb" by auto
  from pending_unsettled [OF assms(1) cb] have u: "promises c i = None" "settlements c i = []"
    by simp_all
  note f = fire_timeout_pending [OF assms(3) assms(2)]
  have p1: "promises ?c1 i = Some ?out" using u by (simp add: f)
  have s1: "settlements ?c1 i = [?out]" using u by (simp add: settlements_def f)
  have n1: "pendingRequests ?c1 i = None" by (simp add: f)
  have le: "i \<le> messageId ?c1" using pending_le [OF assms(1) cb] by (simp add: f)
  have c1: "consistent ?c1" using assms(1) by (rule consistent_fire_timeout)
  have late: "\<forall>r. msg_id r = Some i \<and> msg_method r \<noteq> Some publishDiagnostics \<longrightarrow>
      handleMessage r ?c1 = ?c1"
    using n1 by (auto intro: handleMessage_discarded)
  have later: "\<forall>evs. promises (run ?c1 evs) i = Some ?out \<and> settlements (run ?c1 evs) i = [?out]"
    using retired_run [OF c1 n1 le] p1 s1 by simp
  have msg: "timeout_message method i
         = js ''Request '' @ method @ js '' (id: '' @ decimal i
             @ js '') timed out after 30 seconds''"
    by (simp add: timeout_message_def)
  from pending_request_sent [OF assms(1) cb assms(3)] p1 s1 n1 late later msg
  show ?thesis by blast
qed

lemma timeout_message_example:
  "timeout_message (js ''textDocument/hover'') 1
     = js ''Request textDocument/hover (id: 1) timed out after 30 seconds''"
  by (simp add: timeout_message_def js_def decimal.simps digit_char_def)

lemma timeout_of_one_request:
  "promises (fire_timeout 1 one_request) 1
     = Some (Rejected (js ''Request textDocument/hover (id: 1) timed out after 30 seconds''))
   \<and> settlements (fire_timeout 1 one_request) 1
     = [Rejected (js ''Request textDocument/hover (id: 1) timed out after 30 seconds'')]
   \<and> handleMessage \<lparr>msg_id = Some 1, msg_method = None, msg_params = None,
                      msg_result = Some JNull, msg_error = None\<rparr> (fire_timeout 1 one_request)
       = fire_timeout 1 one_request"
proof -
  have p: "pendingRequests one_request 1 \<noteq> None" by (simp add: one_request_facts)
  have tm: "timers one_request 1 = Some (js ''textDocument/hover'')"
    by (simp add: one_request_facts)
  note t = timeout_rejects_pending_request [OF one_request_facts(1) p tm]
  from t have "handleMessage \<lparr>msg_id = Some 1, msg_method = None, msg_params = None,
                      msg_result = Some JNull, msg_error = None\<rparr> (fire_timeout 1 one_request)
       = fire_timeout 1 one_request"
    by simp
  with t show ?thesis unfolding timeout_message_example by blast
qed

text \<open>
  Claim C4: a request that gets no response within its 30 seconds is rejected exactly
  once, with a timeout error naming its method and id, and a later response is dropped.
  For a request still pending when its timer fires this is what the lemmas above prove.
  But \<open>disconnect()\<close> empties the pending map and leaves the timers running. Here a hover
  request is sent on an open socket, then \<open>disconnect()\<close> is called. The request's timer
  is still scheduled; when it fires it finds no entry for the id and does nothing: the
  promise is not rejected, no call is made on it, and the same holds after any events
  whatever. The request got no response, and is never rejected.
\<close>

theorem dropped_request_is_never_rejected:
  "pendingRequests one_request 1 = Some (Callbacks 1)
   \<and> timers one_request 1 = Some (js ''textDocument/hover'')
   \<and> pendingRequests (disconnect one_request) 1 = None
   \<and> timers (disconnect one_request) 1 = Some (js ''textDocument/hover'')
   \<and> promises (fire_timeout 1 (disconnect one_request)) 1 = None
   \<and> settled (fire_timeout 1 (disconnect one_request)) = []
   \<and> (\<forall>evs. promises (run (disconnect one_request) evs) 1 = None
          \<and> settlements (run (disconnect one_request) evs) 1 = [])"
proof -
  note f = one_request_facts
  have d: "consistent (disconnect one_request)"
    using consistent_step [OF f(1), of CallDisconnect] by simp
  have n: "pendingRequests (disconnect one_request) (Suc 0) = None"
    by (simp add: connection_events)
  have le: "Suc 0 \<le> messageId (disconnect one_request)"
    by (simp add: connection_events f)
  have u: "promises (disconnect one_request) 1 = None"
    "settlements (disconnect one_request) 1 = []"
    by (simp_all add: connection_events f settlements_def)
  have later: "\<forall>evs. promises (run (disconnect one_request) evs) 1 = None
          \<and> settlements (run (disconnect one_request) evs) 1 = []"
    using retired_run [OF d n le] u by simp
  have "pendingRequests one_request 1 = Some (Callbacks 1)"
    "timers one_request 1 = Some (js ''textDocument/hover'')"
    "timers (disconnect one_request) 1 = Some (js ''textDocument/hover'')"
    "promises (fire_timeout 1 (disconnect one_request)) 1 = None"
    "settled (fire_timeout 1 (disconnect one_request)) = []"
    by (simp_all add: fire_timeout_not_pending [OF n] connection_events f)
  with n later show ?thesis by simp
qed

subsection \<open>Losing the connection\<close>

text \<open>
  Claim C3, as stated: when the session ends, every request still pending is rejected
  with a connection-loss error. The client has no such rejection. After one request,
  \<open>disconnect()\<close> calls nothing: the promise is not decided. When the socket closes, or
  fails, the request stays pending and its promise is not decided either; what rejects
  it afterwards is its timeout, and the error is the timeout error.
\<close>

theorem disconnect_rejects_nothing:
  "pendingRequests one_request 1 \<noteq> None
   \<and> promises (disconnect one_request) 1 = None
   \<and> settled (disconnect one_request) = []
   \<and> sockets (socket_closes 0 one_request) 0 = Some CLOSED
   \<and> promises (socket_closes 0 one_request) 1 = None
   \<and> settled (socket_closes 0 one_request) = []
   \<and> promises (socket_errors 0 one_request) 1 = None
   \<and> settled (socket_errors 0 one_request) = []
   \<and> settled (fire_timeout 1 (socket_closes 0 one_request))
       = [(1, Rejected (js ''Request textDocument/hover (id: 1) timed out after 30 seconds''))]"
proof -
  note f = one_request_facts
  have p: "pendingRequests (socket_closes 0 one_request) (Suc 0) \<noteq> None"
    "timers (socket_closes 0 one_request) (Suc 0) = Some (js ''textDocument/hover'')"
    by (simp_all add: connection_events f)
  have "settled (fire_timeout 1 (socket_closes 0 one_request))
       = [(1, Rejected (timeout_message (js ''textDocument/hover'') 1))]"
    by (simp add: fire_timeout_pending [OF p(2,1)] connection_events f)
  then have "settled (fire_timeout 1 (socket_closes 0 one_request))
       = [(1, Rejected (js ''Request textDocument/hover (id: 1) timed out after 30 seconds''))]"
    by (simp only: timeout_message_example)
  moreover have "sockets (socket_closes 0 one_request) 0 = Some CLOSED"
    by (simp add: socket_closes_def ws_onclose_def notify_status_def f)
  ultimately show ?thesis by (simp add: connection_events f)
qed

text \<open>
  Claim C3, amended. When the socket closes or fails, no pending request is rejected
  for the loss of the connection: the event leaves the pending requests, their timeouts
  and their promises as they are. A request pending at that moment is then settled by a
  response with its id or by its own timeout, which rejects it with the timeout error
  (the text of the error is spelled out): short of \<open>disconnect()\<close>, at every later moment it is still pending with its timeout
  scheduled, or it has been settled, once, in one of these two ways.
\<close>

theorem close_leaves_requests_to_their_timeout:
  assumes "consistent c" "pendingRequests c i \<noteq> None" "timers c i = Some method"
  shows "pendingRequests (socket_closes k c) = pendingRequests c
     \<and> timers (socket_closes k c) = timers c
     \<and> promises (socket_closes k c) = promises c \<and> settled (socket_closes k c) = settled c
     \<and> pendingRequests (socket_errors k c) = pendingRequests c
     \<and> timers (socket_errors k c) = timers c
     \<and> promises (socket_errors k c) = promises c \<and> settled (socket_errors k c) = settled c
     \<and> promises (fire_timeout i (socket_closes k c)) i
         = Some (Rejected (timeout_message method i))
     \<and> settlements (fire_timeout i (socket_closes k c)) i
         = [Rejected (timeout_message method i)]
     \<and> timeout_message method i
         = js ''Request '' @ method @ js '' (id: '' @ decimal i
             @ js '') timed out after 30 seconds''
     \<and> (\<forall>c' evs. (c' = socket_closes k c \<or> c' = socket_errors k c)
            \<and> CallDisconnect \<notin> set evs \<longrightarrow>
          (pendingRequests (run c' evs) i \<noteq> None \<and> timers (run c' evs) i = Some method)
          \<or> (pendingRequests (run c' evs) i = None
              \<and> (\<exists>out. promises (run c' evs) i = Some out
                    \<and> settlements (run c' evs) i = [out]
                    \<and> (out = Rejected (timeout_message method i)
                        \<or> (\<exists>r. WsMessage r \<in> set evs \<and> msg_id r = Some i
                               \<and> out = response_outcome r)))))"
proof -
  have cc: "consistent (socket_closes k c)"
    using consistent_step [OF assms(1), of "WsClose k"] by simp
  have ce: "consistent (socket_errors k c)"
    using consistent_step [OF assms(1), of "WsError k"] by simp
  have pc: "pendingRequests (socket_closes k c) i \<noteq> None" "timers (socket_closes k c) i = Some method"
    using assms by (simp_all add: connection_events)
  have pe: "pendingRequests (socket_errors k c) i \<noteq> None" "timers (socket_errors k c) i = Some method"
    using assms by (simp_all add: connection_events)
  note t = timeout_rejects_pending_request [OF cc pc]
  have trace: "\<forall>c' evs. (c' = socket_closes k c \<or> c' = socket_errors k c)
            \<and> CallDisconnect \<notin> set evs \<longrightarrow>
          (pendingRequests (run c' evs) i \<noteq> None \<and> timers (run c' evs) i = Some method)
          \<or> (pendingRequests (run c' evs) i = None
              \<and> (\<exists>out. promises (run c' evs) i = Some out
                    \<and> settlements (run c' evs) i = [out]
                    \<and> (out = Rejected (timeout_message method i)
                        \<or> (\<exists>r. WsMessage r \<in> set evs \<and> msg_id r = Some i
                               \<and> out = response_outcome r))))"
  proof (intro allI impI)
    fix c' and evs :: "event list"
    assume a: "(c' = socket_closes k c \<or> c' = socket_errors k c) \<and> CallDisconnect \<notin> set evs"
    then have d: "CallDisconnect \<notin> set evs" by simp
    from a have "c' = socket_closes k c \<or> c' = socket_errors k c" by simp
    then show "(pendingRequests (run c' evs) i \<noteq> None \<and> timers (run c' evs) i = Some method)
          \<or> (pendingRequests (run c' evs) i = None
              \<and> (\<exists>out. promises (run c' evs) i = Some out
                    \<and> settlements (run c' evs) i = [out]
                    \<and> (out = Rejected (timeout_message method i)
                        \<or> (\<exists>r. WsMessage r \<in> set evs \<and> msg_id r = Some i
                               \<and> out = response_outcome r))))"
    proof
      assume "c' = socket_closes k c"
      with pending_run [OF cc pc d] show ?thesis by simp
    next
      assume "c' = socket_errors k c"
      with pending_run [OF ce pe d] show ?thesis by simp
    qed
  qed
  from t have "promises (fire_timeout i (socket_closes k c)) i
         = Some (Rejected (timeout_message method i))"
    "settlements (fire_timeout i (socket_closes k c)) i
         = [Rejected (timeout_message method i)]"
    "timeout_message method i
         = js ''Request '' @ method @ js '' (id: '' @ decimal i
             @ js '') timed out after 30 seconds''"
    by simp_all
  with trace show ?thesis by (simp only: connection_events simp_thms)
qed

theorem close_leaves_requests_to_their_timeout_witness:
  "consistent one_request \<and> pendingRequests one_request 1 \<noteq> None
   \<and> timers one_request 1 = Some (js ''textDocument/hover'')
   \<and> pendingRequests (socket_closes 0 one_request) = pendingRequests one_request
   \<and> settled (socket_closes 0 one_request) = settled one_request
   \<and> promises (fire_timeout 1 (socket_closes 0 one_request)) 1
       = Some (Rejected (timeout_message (js ''textDocument/hover'') 1))
   \<and> settlements (fire_timeout 1 (socket_closes 0 one_request)) 1
       = [Rejected (timeout_message (js ''textDocument/hover'') 1)]"
proof -
  have p: "pendingRequests one_request 1 \<noteq> None" by (simp add: one_request_facts)
  have tm: "timers one_request 1 = Some (js ''textDocument/hover'')"
    by (simp add: one_request_facts)
  from close_leaves_requests_to_their_timeout [OF one_request_facts(1) p tm, of 0]
    p tm one_request_facts(1)
  show ?thesis by blast
qed

subsection \<open>Request ids\<close>







subsection \<open>Sending without a connection\<close>

text \<open>
  Claim C10. Called while the socket is not open, \<open>sendRequest\<close> rejects at once with
  "WebSocket not connected" and changes nothing: no id is taken, nothing is stored,
  scheduled or sent, so the next request that does go out gets the id that follows the
  counter as it was.
\<close>

theorem sendRequest_not_connected:
  assumes "ws c = None \<or> ws_readyState c \<noteq> Some OPEN"
  shows "sendRequest method params c = (Inl (js ''WebSocket not connected''), c)
    \<and> fst (sendRequest method' params'
             ((snd (sendRequest method params c))
                \<lparr>ws := Some k, sockets := (sockets c)(k \<mapsto> OPEN)\<rparr>))
        = Inr (messageId c + 1)"
  using assms by (simp add: sendRequest_def Let_def ws_readyState_def)

theorem sendRequest_not_connected_witness:
  "ws new_client = None
   \<and> sendRequest (js ''textDocument/hover'') None new_client
       = (Inl (js ''WebSocket not connected''), new_client)"
proof -
  have n: "ws new_client = None" by (simp add: new_client_def)
  then have h: "ws new_client = None \<or> ws_readyState new_client \<noteq> Some OPEN" by simp
  from sendRequest_not_connected [OF h] n show ?thesis by blast
qed

subsection \<open>Responses in any order\<close>

lemma responses_effect:
  assumes "consistent c" "distinct (map msg_id rs)"
    "\<forall>r \<in> set rs. \<exists>i. msg_id r = Some i \<and> pendingRequests c i \<noteq> None"
  shows "(\<forall>r \<in> set rs. promises (run c (map WsMessage rs)) (the (msg_id r)) = Some (response_outcome r)
            \<and> settlements (run c (map WsMessage rs)) (the (msg_id r)) = [response_outcome r])
     \<and> (\<forall>i. Some i \<notin> msg_id ` set rs \<longrightarrow>
            promises (run c (map WsMessage rs)) i = promises c i
            \<and> settlements (run c (map WsMessage rs)) i = settlements c i
            \<and> pendingRequests (run c (map WsMessage rs)) i = pendingRequests c i)"
  using assms
proof (induction rs arbitrary: c)
  case Nil
  show ?case by (simp add: run_def)
next
  case (Cons r rs)
  let ?c1 = "handleMessage r c"
  from Cons.prems(3) obtain j cb where j: "msg_id r = Some j" "pendingRequests c j = Some cb"
    by auto
  with Cons.prems(1) have p: "pendingRequests c j = Some (Callbacks j)"
    using pending_callbacks by simp
  note h = handleMessage_response [OF j(1) p]
  from pending_unsettled [OF Cons.prems(1) p] have u: "promises c j = None" "settlements c j = []"
    by simp_all
  have c1: "consistent ?c1" using Cons.prems(1) by (rule consistent_handleMessage)
  have d: "distinct (map msg_id rs)" using Cons.prems(2) by simp
  have notin: "Some j \<notin> msg_id ` set rs" using Cons.prems(2) j(1) by auto
  have pend: "\<forall>r' \<in> set rs. \<exists>i. msg_id r' = Some i \<and> pendingRequests ?c1 i \<noteq> None"
  proof
    fix r' assume r': "r' \<in> set rs"
    with Cons.prems(3) obtain i where i: "msg_id r' = Some i" "pendingRequests c i \<noteq> None"
      by auto
    from r' notin i(1) have "i \<noteq> j" by force
    with i show "\<exists>i. msg_id r' = Some i \<and> pendingRequests ?c1 i \<noteq> None"
      by (simp add: h)
  qed
  note IH = Cons.IH [OF c1 d pend]
  have run: "run c (map WsMessage (r # rs)) = run ?c1 (map WsMessage rs)"
    by (simp add: run_def)
  have here: "promises (run ?c1 (map WsMessage rs)) j = Some (response_outcome r)
      \<and> settlements (run ?c1 (map WsMessage rs)) j = [response_outcome r]"
    using IH notin u by (simp add: h settlements_def)
  have others: "\<forall>i. Some i \<notin> msg_id ` set (r # rs) \<longrightarrow>
            promises (run ?c1 (map WsMessage rs)) i = promises c i
            \<and> settlements (run ?c1 (map WsMessage rs)) i = settlements c i
            \<and> pendingRequests (run ?c1 (map WsMessage rs)) i = pendingRequests c i"
  proof (intro allI impI)
    fix i assume "Some i \<notin> msg_id ` set (r # rs)"
    then have "i \<noteq> j" "Some i \<notin> msg_id ` set rs" using j(1) by auto
    with IH u show "promises (run ?c1 (map WsMessage rs)) i = promises c i
            \<and> settlements (run ?c1 (map WsMessage rs)) i = settlements c i
            \<and> pendingRequests (run ?c1 (map WsMessage rs)) i = pendingRequests c i"
      by (simp add: h settlements_def)
  qed
  from here others IH j(1) show ?case
    unfolding run by simp
qed

text \<open>
  Claim C5. For pending requests with distinct ids, responses delivered in any order
  settle each promise with the result, or the error message, of the response carrying
  its own id, and touch no other promise. The responses \<open>rs\<close> come in any order (any list
  without two responses for one id); each promise named gets exactly one call, with its
  own response's outcome; promises not named are untouched; and any other order of the
  same responses ends with the same promises.
\<close>

theorem responses_settle_their_own_request:
  assumes "consistent c" "distinct (map msg_id rs)"
    "\<forall>r \<in> set rs. \<exists>i. msg_id r = Some i \<and> pendingRequests c i \<noteq> None"
  shows "(\<forall>r \<in> set rs.
            promises (run c (map WsMessage rs)) (the (msg_id r)) = Some (response_outcome r)
            \<and> settlements (run c (map WsMessage rs)) (the (msg_id r)) = [response_outcome r])
     \<and> (\<forall>i. Some i \<notin> msg_id ` set rs \<longrightarrow>
            promises (run c (map WsMessage rs)) i = promises c i
            \<and> settlements (run c (map WsMessage rs)) i = settlements c i)
     \<and> (\<forall>rs'. set rs' = set rs \<and> distinct (map msg_id rs') \<longrightarrow>
            promises (run c (map WsMessage rs')) = promises (run c (map WsMessage rs)))"
proof -
  note e = responses_effect [OF assms]
  have perm: "\<forall>rs'. set rs' = set rs \<and> distinct (map msg_id rs') \<longrightarrow>
            promises (run c (map WsMessage rs')) = promises (run c (map WsMessage rs))"
  proof (intro allI impI)
    fix rs' assume a: "set rs' = set rs \<and> distinct (map msg_id rs')"
    then have p': "\<forall>r \<in> set rs'. \<exists>i. msg_id r = Some i \<and> pendingRequests c i \<noteq> None"
      using assms(3) by simp
    from a have d': "distinct (map msg_id rs')" by simp
    note e' = responses_effect [OF assms(1) d' p']
    show "promises (run c (map WsMessage rs')) = promises (run c (map WsMessage rs))"
    proof
      fix i
      show "promises (run c (map WsMessage rs')) i = promises (run c (map WsMessage rs)) i"
      proof (cases "Some i \<in> msg_id ` set rs")
        case True
        then obtain r where r: "r \<in> set rs" "msg_id r = Some i" by force
        from r e have "promises (run c (map WsMessage rs)) i = Some (response_outcome r)"
          by force
        moreover from r a e' have "promises (run c (map WsMessage rs')) i = Some (response_outcome r)"
          by force
        ultimately show ?thesis by simp
      next
        case False
        with e have "promises (run c (map WsMessage rs)) i = promises c i" by simp
        moreover from False a e' have "promises (run c (map WsMessage rs')) i = promises c i"
          by simp
        ultimately show ?thesis by simp
      qed
    qed
  qed
  from e perm show ?thesis by simp
qed

theorem responses_settle_their_own_request_witness:
  "promises (run two_requests
       [WsMessage \<lparr>msg_id = Some 2, msg_method = None, msg_params = None,
                    msg_result = Some (JStr (js ''a hover text'')), msg_error = None\<rparr>,
        WsMessage \<lparr>msg_id = Some 1, msg_method = None, msg_params = None,
                    msg_result = None, msg_error = Some \<lparr>error_message = js ''boom''\<rparr>\<rparr>]) 1
     = Some (Rejected (js ''boom''))
   \<and> promises (run two_requests
       [WsMessage \<lparr>msg_id = Some 2, msg_method = None, msg_params = None,
                    msg_result = Some (JStr (js ''a hover text'')), msg_error = None\<rparr>,
        WsMessage \<lparr>msg_id = Some 1, msg_method = None, msg_params = None,
                    msg_result = None, msg_error = Some \<lparr>error_message = js ''boom''\<rparr>\<rparr>]) 2
     = Some (Resolved (Some (JStr (js ''a hover text''))))"
proof -
  define r2 where "r2 = \<lparr>msg_id = Some 2, msg_method = None, msg_params = None,
                    msg_result = Some (JStr (js ''a hover text'')), msg_error = None\<rparr>"
  define r1 where "r1 = \<lparr>msg_id = Some 1, msg_method = None, msg_params = None,
                    msg_result = None, msg_error = Some \<lparr>error_message = js ''boom''\<rparr>\<rparr>"
  have d: "distinct (map msg_id [r2, r1])" by (simp add: r1_def r2_def)
  have p: "\<forall>r \<in> set [r2, r1]. \<exists>i. msg_id r = Some i \<and> pendingRequests two_requests i \<noteq> None"
    by (simp add: r1_def r2_def two_requests_facts numeral_2_eq_2)
  from responses_settle_their_own_request [OF two_requests_facts(1) d p]
  have "promises (run two_requests (map WsMessage [r2, r1])) (the (msg_id r1)) = Some (response_outcome r1)"
    "promises (run two_requests (map WsMessage [r2, r1])) (the (msg_id r2)) = Some (response_outcome r2)"
    by simp_all
  then show ?thesis
    by (simp add: r1_def r2_def response_outcome_def)
qed


subsection \<open>The handshake\<close>








section \<open>The editor: diagnostics\<close>

lemma uri_to_ErrorItem: "uri (to_ErrorItem Number_toString u d) = u"
  by (simp add: to_ErrorItem_def)

lemma currentErrors_on_diagnostics:
  "currentErrors (on_diagnostics Number_toString u ds ed) =
     filter (\<lambda>error. uri error \<noteq> u) (currentErrors ed) @ map (to_ErrorItem Number_toString u) ds"
  by (simp add: on_diagnostics_def setCurrentErrors_update_def Let_def)

lemma errors_of_on_diagnostics:
  "errors_of (on_diagnostics Number_toString u ds ed) v =
     (if v = u then map (to_ErrorItem Number_toString u) ds else errors_of ed v)"
proof -
  have a: "filter (\<lambda>error. uri error = v) (map (to_ErrorItem Number_toString u) ds) =
      (if v = u then map (to_ErrorItem Number_toString u) ds else [])"
    by (induction ds) (auto simp: uri_to_ErrorItem)
  have "filter (\<lambda>error. uri error = v) (filter (\<lambda>error. uri error \<noteq> u) es) =
      (if v = u then [] else filter (\<lambda>error. uri error = v) es)" for es
    by (induction es) auto
  then have b: "filter (\<lambda>error. uri error = v) (filter (\<lambda>error. uri error \<noteq> u) (currentErrors ed)) =
      (if v = u then [] else filter (\<lambda>error. uri error = v) (currentErrors ed))" .
  show ?thesis
    unfolding errors_of_def currentErrors_on_diagnostics filter_append a b by simp
qed

lemma publish_all_snoc:
  "publish_all Number_toString ed (pubs @ [(u, ds)]) = on_diagnostics Number_toString u ds (publish_all Number_toString ed pubs)"
  by (simp add: publish_all_def)

lemma errors_of_publish_all:
  "errors_of (publish_all Number_toString ed pubs) v =
     (case latest pubs v of None \<Rightarrow> errors_of ed v | Some ds \<Rightarrow> map (to_ErrorItem Number_toString v) ds)"
proof (induction pubs rule: rev_induct)
  case Nil
  show ?case by (simp add: publish_all_def latest_def)
next
  case (snoc p pubs)
  obtain u ds where p: "p = (u, ds)" by (cases p)
  show ?case
    using snoc by (simp add: p publish_all_snoc errors_of_on_diagnostics latest_def)
qed

lemma uri_currentErrors:
  "e \<in> set (currentErrors (publish_all Number_toString ed pubs)) \<Longrightarrow>
     uri e \<in> fst ` set pubs \<or> e \<in> set (currentErrors ed)"
proof (induction pubs arbitrary: e rule: rev_induct)
  case Nil
  then show ?case by (simp add: publish_all_def)
next
  case (snoc p pubs)
  obtain u ds where p: "p = (u, ds)" by (cases p)
  from snoc.prems have "e \<in> set (currentErrors (publish_all Number_toString ed pubs)) \<or> e \<in> to_ErrorItem Number_toString u ` set ds"
    by (auto simp: p publish_all_snoc currentErrors_on_diagnostics)
  then show ?case
  proof
    assume "e \<in> set (currentErrors (publish_all Number_toString ed pubs))"
    from snoc.IH [OF this] show ?thesis by auto
  next
    assume "e \<in> to_ErrorItem Number_toString u ` set ds"
    then have "uri e = u" by (auto simp: uri_to_ErrorItem)
    then show ?thesis by (simp add: p)
  qed
qed

lemma set_errors_of: "set (errors_of ed u) = {e \<in> set (currentErrors ed). uri e = u}"
  by (simp add: errors_of_def)

text \<open>
  Claim C9. A publish for a URI replaces what was stored for that URI, and after any
  sequence of publishes the list for all files holds, for each URI, exactly the
  diagnostics of its latest publish. First part: right after a publish for \<open>u\<close>, the
  entries of \<open>u\<close> are the new ones only. Second part: after any publishes, the entries of
  each URI are those of its latest publish (or the ones it had, when it had none).
  Third part: starting from an empty list, after publishes for \<open>A\<close> and \<open>B\<close> only, the list
  holds the latest set of \<open>A\<close> and the latest set of \<open>B\<close>, and nothing else.
\<close>

theorem diagnostics_replace_per_uri:
  "errors_of (on_diagnostics Number_toString u ds ed) u = map (to_ErrorItem Number_toString u) ds
   \<and> (\<forall>v. errors_of (publish_all Number_toString ed pubs) v =
        (case latest pubs v of None \<Rightarrow> errors_of ed v | Some ds' \<Rightarrow> map (to_ErrorItem Number_toString v) ds'))
   \<and> (currentErrors ed = [] \<and> fst ` set pubs \<subseteq> {A, B} \<longrightarrow>
        set (currentErrors (publish_all Number_toString ed pubs)) =
          (case latest pubs A of None \<Rightarrow> {} | Some ds' \<Rightarrow> set (map (to_ErrorItem Number_toString A) ds'))
          \<union> (case latest pubs B of None \<Rightarrow> {} | Some ds' \<Rightarrow> set (map (to_ErrorItem Number_toString B) ds')))"
proof -
  have 1: "errors_of (on_diagnostics Number_toString u ds ed) u = map (to_ErrorItem Number_toString u) ds"
    by (simp add: errors_of_on_diagnostics)
  have 2: "\<forall>v. errors_of (publish_all Number_toString ed pubs) v =
        (case latest pubs v of None \<Rightarrow> errors_of ed v | Some ds' \<Rightarrow> map (to_ErrorItem Number_toString v) ds')"
    by (simp add: errors_of_publish_all)
  have 3: "set (currentErrors (publish_all Number_toString ed pubs)) =
          (case latest pubs A of None \<Rightarrow> {} | Some ds' \<Rightarrow> set (map (to_ErrorItem Number_toString A) ds'))
          \<union> (case latest pubs B of None \<Rightarrow> {} | Some ds' \<Rightarrow> set (map (to_ErrorItem Number_toString B) ds'))"
    if h: "currentErrors ed = []" "fst ` set pubs \<subseteq> {A, B}"
  proof -
    let ?agg = "publish_all Number_toString ed pubs"
    have "\<forall>e \<in> set (currentErrors ?agg). uri e = A \<or> uri e = B"
      using uri_currentErrors [of _ Number_toString ed pubs] h by auto
    then have "set (currentErrors ?agg) = set (errors_of ?agg A) \<union> set (errors_of ?agg B)"
      by (auto simp: set_errors_of)
    moreover have "errors_of ed A = []" "errors_of ed B = []"
      using h(1) by (simp_all add: errors_of_def)
    ultimately show ?thesis
      by (simp add: errors_of_publish_all split: option.splits)
  qed
  from 1 2 3 show ?thesis by blast
qed

theorem diagnostics_replace_per_uri_witness:
  "currentErrors no_errors = []
   \<and> fst ` set [(uri_a, [diag 1 (js ''old'')]), (uri_b, [diag 2 (js ''other'')]),
                (uri_a, [diag 3 (js ''new'')])] \<subseteq> {uri_a, uri_b}
   \<and> set (currentErrors (publish_all unused_toString no_errors
        [(uri_a, [diag 1 (js ''old'')]), (uri_b, [diag 2 (js ''other'')]),
         (uri_a, [diag 3 (js ''new'')])]))
      = {to_ErrorItem unused_toString uri_a (diag 3 (js ''new'')), to_ErrorItem unused_toString uri_b (diag 2 (js ''other''))}"
proof -
  let ?pubs = "[(uri_a, [diag 1 (js ''old'')]), (uri_b, [diag 2 (js ''other'')]),
                (uri_a, [diag 3 (js ''new'')])]"
  have ne: "uri_a \<noteq> uri_b" by (simp add: js_def)
  have h1: "currentErrors no_errors = []" by simp
  have h2: "fst ` set ?pubs \<subseteq> {uri_a, uri_b}" by simp
  have l: "latest ?pubs uri_a = Some [diag 3 (js ''new'')]"
    "latest ?pubs uri_b = Some [diag 2 (js ''other'')]"
    using ne by (simp_all add: latest_def)
  from diagnostics_replace_per_uri [of unused_toString uri_a "[]" no_errors ?pubs uri_a uri_b] h1 h2
  have "set (currentErrors (publish_all unused_toString no_errors ?pubs)) =
          (case latest ?pubs uri_a of None \<Rightarrow> {} | Some ds' \<Rightarrow> set (map (to_ErrorItem unused_toString uri_a) ds'))
          \<union> (case latest ?pubs uri_b of None \<Rightarrow> {} | Some ds' \<Rightarrow> set (map (to_ErrorItem unused_toString uri_b) ds'))"
    by blast
  then have "set (currentErrors (publish_all unused_toString no_errors ?pubs))
      = {to_ErrorItem unused_toString uri_a (diag 3 (js ''new'')), to_ErrorItem unused_toString uri_b (diag 2 (js ''other''))}"
    unfolding l by (simp add: insert_commute)
  with h1 h2 show ?thesis by blast
qed

end
